theory Spec2Isabelle
  imports
    Main
    "HOL-Library.Char_ord"
    "HOL-Library.List_Lexorder"
    "HOL-Library.Option_ord"
    "HOL-Library.AList"
begin

section \<open>The record store of merge\_endsongs.py\<close>

text \<open>
  The script keeps three SQLite tables. A table is modelled as the list of its rows in
  rowid order, which is the order of a full table scan. For \<open>history\<close> and
  \<open>endsong\<close> the column \<open>id\<close> is the INTEGER PRIMARY KEY, hence the rowid;
  \<open>endsong_modified\<close> is created by CREATE TABLE ... AS SELECT, has no key and keeps
  its rows in insertion order. Every TEXT and INTEGER column is nullable: NULL is
  \<open>None\<close>. The column \<open>id\<close> is called \<open>hid\<close> and \<open>eid\<close> here, since \<open>id\<close> is
  the identity function of HOL. The columns of \<open>endsong\<close> that the script never reads
  (username, conn\_country, ..., source) are copied along with a row and are left out.
  Strings are byte lists; the timestamps and identifiers the script slices are ASCII.
\<close>

record hist_row =
  endTime :: "string option"
  artistName :: "string option"
  trackName :: "string option"
  msPlayed :: "int option"
  hid :: int

record endsong_row =
  ts :: "string option"
  platform :: "string option"
  ms_played :: "int option"
  master_metadata_track_name :: "string option"
  master_metadata_album_artist_name :: "string option"
  master_metadata_album_album_name :: "string option"
  spotify_track_uri :: "string option"
  offline_timestamp :: "int option"
  eid :: int

record db =
  history :: "hist_row list"
  endsong :: "endsong_row list"
  endsong_modified :: "endsong_row list"

datatype error =
  TypeError | AttributeError | ValueError | IndexError | KeyError
  | OperationalError | ProgrammingError | OracleError

type_synonym pair = "string option \<times> string option"

subsection \<open>SQL and Python primitives\<close>

text \<open>SQL \<open>column = ?\<close>: never true when either side is NULL.\<close>

definition sql_eq :: "'a option \<Rightarrow> 'a option \<Rightarrow> bool" where
  "sql_eq a b = (a \<noteq> None \<and> a = b)"

text \<open>SQLite's LIKE folds the case of ASCII letters only.\<close>

definition sql_lower :: "char \<Rightarrow> char" where
  "sql_lower c =
     (let n = (of_char c :: nat) in if 65 \<le> n \<and> n \<le> 90 then char_of (n + 32) else c)"

text \<open>\<open>sql_like pattern text\<close>: \<open>%\<close> matches any run of characters, \<open>_\<close> exactly one.\<close>

fun sql_like :: "string \<Rightarrow> string \<Rightarrow> bool" where
  "sql_like [] [] = True"
| "sql_like [] (c # cs) = False"
| "sql_like (p # ps) [] = (p = CHR ''%'' \<and> sql_like ps [])"
| "sql_like (p # ps) (c # cs) =
     (if p = CHR ''%'' then sql_like ps (c # cs) \<or> sql_like (p # ps) cs
      else if p = CHR ''_'' then sql_like ps cs
      else sql_lower p = sql_lower c \<and> sql_like ps cs)"

text \<open>Python \<open>s.replace(a, b, 1)\<close> for single characters: the first occurrence only.\<close>

fun replace_first :: "char \<Rightarrow> char \<Rightarrow> string \<Rightarrow> string" where
  "replace_first a b [] = []"
| "replace_first a b (c # cs) = (if c = a then b # cs else c # replace_first a b cs)"

text \<open>Python \<open>s.replace(a, b)\<close> for single characters: every occurrence.\<close>

definition replace_all :: "char \<Rightarrow> char \<Rightarrow> string \<Rightarrow> string" where
  "replace_all a b s = map (\<lambda>c. if c = a then b else c) s"

text \<open>\<open>row[0][:16].replace("T", " ", 1)\<close>\<close>

definition minute_key :: "string \<Rightarrow> string" where
  "minute_key t = replace_first (CHR ''T'') (CHR '' '') (take 16 t)"

text \<open>\<open>uri.split("?")[0][31:]\<close>\<close>

definition strip_url :: "string \<Rightarrow> string" where
  "strip_url u = drop 31 (takeWhile (\<lambda>c. c \<noteq> CHR ''?'') u)"

text \<open>
  A Python \<open>set\<close> is kept as a duplicate-free list; \<open>set_add\<close> is \<open>s.add(x)\<close>. The
  order in which Python iterates a set is not the insertion order (it follows the hash
  table), so each loop over a set takes its iteration order from the environment below.
\<close>

definition set_add :: "'a \<Rightarrow> 'a list \<Rightarrow> 'a list" where
  "set_add x xs = (if x \<in> set xs then xs else xs @ [x])"

text \<open>A loop whose body may raise: the first exception ends it.\<close>

fun for_each :: "('s \<Rightarrow> 'a \<Rightarrow> error + 's) \<Rightarrow> 'a list \<Rightarrow> 's \<Rightarrow> error + 's" where
  "for_each f [] s = Inr s"
| "for_each f (x # xs) s = (case f s x of Inl e \<Rightarrow> Inl e | Inr s' \<Rightarrow> for_each f xs s')"

text \<open>
  Python \<open>int(x)\<close> on a string, base 10: surrounding whitespace is stripped, one sign is
  allowed, and the digits may be grouped by single underscores. Only ASCII input is
  covered: digits and spaces beyond ASCII, which Python also accepts, do not parse here.
  On an ASCII string \<open>int\<close> strips the characters 9 to 13 and the space only; the
  separators 28 to 31, which \<open>str.strip\<close> removes, make it raise ValueError.
\<close>

definition is_space :: "char \<Rightarrow> bool" where
  "is_space c = (let n = (of_char c :: nat) in (9 \<le> n \<and> n \<le> 13) \<or> n = 32)"

definition is_digit :: "char \<Rightarrow> bool" where
  "is_digit c = (let n = (of_char c :: nat) in 48 \<le> n \<and> n \<le> 57)"

definition digit_val :: "char \<Rightarrow> int" where
  "digit_val c = int (of_char c) - 48"

fun parse_digits :: "int \<Rightarrow> string \<Rightarrow> int option"
  and parse_more :: "int \<Rightarrow> string \<Rightarrow> int option" where
  "parse_digits acc [] = None"
| "parse_digits acc (c # cs) =
     (if is_digit c then parse_more (acc * 10 + digit_val c) cs else None)"
| "parse_more acc [] = Some acc"
| "parse_more acc (c # cs) =
     (if is_digit c then parse_more (acc * 10 + digit_val c) cs
      else if c = CHR ''_'' then parse_digits acc cs
      else None)"

definition strip :: "string \<Rightarrow> string" where
  "strip s = rev (dropWhile is_space (rev (dropWhile is_space s)))"

definition py_int :: "string \<Rightarrow> int option" where
  "py_int x =
     (case strip x of
        [] \<Rightarrow> None
      | c # cs \<Rightarrow>
          if c = CHR ''+'' then parse_digits 0 cs
          else if c = CHR ''-'' then map_option uminus (parse_digits 0 cs)
          else parse_digits 0 (c # cs))"

text \<open>Python \<open>xs[k]\<close>: a negative index counts from the end, out of range raises.\<close>

definition py_index :: "'a list \<Rightarrow> int \<Rightarrow> 'a option" where
  "py_index xs k =
     (let n = int (length xs) in
      if 0 \<le> k \<and> k < n then Some (xs ! nat k)
      else if - n \<le> k \<and> k < 0 then Some (xs ! nat (n + k))
      else None)"

subsection \<open>The environment of a run\<close>

text \<open>
  What the script takes from outside the store: the iteration orders of its three sets,
  the operator at the prompt of the no-match loop, and the browser session of the
  track-data search. The operator is a function of what the prompt displays (the
  timestamp and the numbered options) and returns the line typed. The search returns,
  for a (track, artist) pair, one of the outcomes of the loop body.

  The loop over the clusters pastes an end time into the text of its query. An end
  time that holds an apostrophe ends the string literal early, and SQLite then runs
  whatever statement the text has become, or raises when it is none. That answer is
  taken from the environment as well: \<open>rewritten e d ms t\<close> is what the query with the
  duration \<open>ms\<close> and the end time \<open>t\<close> gives on the store \<open>d\<close>, an error or the list of
  the values of its one result column. Such a value is used as an id only, so a value
  that is no integer is given as an integer that no row has as id.
\<close>

datatype search_result =
  NoResult
  | Accepted string string
  | Rejected
  | SearchRaised

record env =
  iter_multiple :: "int list list \<Rightarrow> int list list"
  iter_none :: "int list \<Rightarrow> int list"
  iter_options :: "pair list \<Rightarrow> pair list"
  input_index :: "string option \<Rightarrow> pair list \<Rightarrow> string"
  search :: "pair \<Rightarrow> search_result"
  rewritten :: "db \<Rightarrow> int \<Rightarrow> string \<Rightarrow> error + int list"

text \<open>
  \<open>NoResult\<close>: the wait for the result list timed out (\<open>except: continue\<close>).
  \<open>Accepted album link\<close>: a result was accepted; \<open>album\<close> is its album text and
  \<open>link\<close> the share link read back from the search bar. \<open>Rejected\<close>: the operator
  answered n. \<open>SearchRaised\<close>: anything in the body raised.
\<close>

definition iterates_sets :: "env \<Rightarrow> bool" where
  "iterates_sets e =
     ((\<forall>xs. distinct xs \<longrightarrow> distinct (iter_multiple e xs) \<and> set (iter_multiple e xs) = set xs)
    \<and> (\<forall>xs. distinct xs \<longrightarrow> distinct (iter_none e xs) \<and> set (iter_none e xs) = set xs)
    \<and> (\<forall>xs. distinct (iter_options e xs) \<and> set (iter_options e xs) = set xs))"

section \<open>The resolvers\<close>

text \<open>\<open>SELECT COUNT(id) FROM endsong_modified WHERE id = ?\<close>\<close>

definition count_modified :: "db \<Rightarrow> int \<Rightarrow> nat" where
  "count_modified d i = length (filter (\<lambda>r. eid r = i) (endsong_modified d))"

text \<open>
  \<open>INSERT INTO endsong_modified SELECT * FROM endsong WHERE id = ?\<close> followed by
  \<open>UPDATE endsong_modified SET master_metadata_track_name = ?,
  master_metadata_album_artist_name = ? WHERE id = ?\<close>.
\<close>

definition set_names :: "string option \<Rightarrow> string option \<Rightarrow> endsong_row \<Rightarrow> endsong_row" where
  "set_names track artist r =
     r\<lparr>master_metadata_track_name := track, master_metadata_album_artist_name := artist\<rparr>"

definition insert_resolved :: "db \<Rightarrow> int \<Rightarrow> string option \<Rightarrow> string option \<Rightarrow> db" where
  "insert_resolved d i track artist =
     d\<lparr>endsong_modified :=
         map (\<lambda>r. if eid r = i then set_names track artist r else r)
           (endsong_modified d @ filter (\<lambda>r. eid r = i) (endsong d))\<rparr>"

subsection \<open>Initial pass\<close>

text \<open>\<open>SELECT * FROM history WHERE endTime = ? AND msPlayed = ?\<close>\<close>

definition exact_matches :: "db \<Rightarrow> string \<Rightarrow> int option \<Rightarrow> hist_row list" where
  "exact_matches d t ms =
     filter (\<lambda>h. sql_eq (endTime h) (Some t) \<and> sql_eq (msPlayed h) ms) (history d)"

text \<open>\<open>SELECT * FROM endsong WHERE platform = 'ios'\<close>\<close>

definition ios_rows :: "db \<Rightarrow> endsong_row list" where
  "ios_rows d = filter (\<lambda>r. platform r = Some ''ios'') (endsong d)"

text \<open>
  The body of the first loop. The state is the store with the sets \<open>multiple\<close> and
  \<open>none\<close>. Slicing a NULL timestamp raises TypeError.
\<close>

fun initial_step ::
  "db \<times> int list list \<times> int list \<Rightarrow> endsong_row \<Rightarrow> error + (db \<times> int list list \<times> int list)"
where
  "initial_step (d, multiple, none) row =
     (case ts row of
        None \<Rightarrow> Inl TypeError
      | Some t \<Rightarrow>
          let matches = exact_matches d (minute_key t) (ms_played row) in
          if length matches = 1 then
            (if count_modified d (eid row) = 0
             then Inr (insert_resolved d (eid row)
                         (trackName (matches ! 0)) (artistName (matches ! 0)), multiple, none)
             else Inr (d, multiple, none))
          else if length matches > 1 then
            Inr (d, set_add (sort (map hid matches)) multiple, none)
          else Inr (d, multiple, set_add (eid row) none))"

definition initial_pass :: "db \<Rightarrow> error + (db \<times> int list list \<times> int list)" where
  "initial_pass d = for_each initial_step (ios_rows d) (d, [], [])"

subsection \<open>Entries with multiple matches\<close>

text \<open>\<open>SELECT * FROM history WHERE id IN (...)\<close>\<close>

definition cluster_history :: "db \<Rightarrow> int list \<Rightarrow> hist_row list" where
  "cluster_history d entry = filter (\<lambda>h. hid h \<in> set entry) (history d)"

text \<open>\<open>history[0][0].replace(" ", "T") + "%"\<close>\<close>

definition ts_like :: "string \<Rightarrow> string" where
  "ts_like e = replace_all (CHR '' '') (CHR ''T'') e @ ''%''"

text \<open>
  \<open>SELECT id FROM endsong WHERE platform = 'ios' AND ms_played = ... AND ts LIKE '...'
  ORDER BY offline_timestamp\<close>. NULL sorts first; rows with equal keys stay in scan
  order, as SQLite's sorter leaves them.
\<close>

definition cluster_endsong :: "db \<Rightarrow> int \<Rightarrow> string \<Rightarrow> int list" where
  "cluster_endsong d ms pat =
     map eid (sort_key offline_timestamp
       (filter (\<lambda>r. platform r = Some ''ios'' \<and> ms_played r = Some ms
                  \<and> (case ts r of None \<Rightarrow> False | Some t \<Rightarrow> sql_like pat t))
          (endsong d)))"

text \<open>The body of \<open>for hist_ent, endsong_id in zip(history, endsong)\<close>.\<close>

definition resolve_pair :: "db \<Rightarrow> hist_row \<times> int \<Rightarrow> db" where
  "resolve_pair d p =
     (case p of (hist_ent, endsong_id) \<Rightarrow>
        if count_modified d endsong_id = 0
        then insert_resolved d endsong_id (trackName hist_ent) (artistName hist_ent)
        else d)"

text \<open>
  The body of the second loop, for one cluster. The timestamp and the duration of the
  first history row are pasted into the SQL text. A NULL duration gives the text
  \<open>None\<close>, which SQLite rejects. A timestamp without an apostrophe gives the query
  above; for one with an apostrophe the result is that of the rewritten text.
\<close>

definition multiple_step :: "env \<Rightarrow> db \<Rightarrow> int list \<Rightarrow> error + db" where
  "multiple_step e d entry =
     (case cluster_history d entry of
        [] \<Rightarrow> Inl IndexError
      | h0 # hs \<Rightarrow>
          (case endTime h0 of
             None \<Rightarrow> Inl AttributeError
           | Some t \<Rightarrow>
               (case msPlayed h0 of
                  None \<Rightarrow> Inl OperationalError
                | Some ms \<Rightarrow>
                    if CHR 0x27 \<in> set t then
                      (case rewritten e d ms t of
                         Inl err \<Rightarrow> Inl err
                       | Inr ids \<Rightarrow> Inr (foldl resolve_pair d (zip (h0 # hs) ids)))
                    else Inr (foldl resolve_pair d
                                (zip (h0 # hs) (cluster_endsong d ms (ts_like t)))))))"

definition multiple_pass :: "env \<Rightarrow> db \<Rightarrow> int list list \<Rightarrow> error + db" where
  "multiple_pass e d multiple = for_each (multiple_step e) (iter_multiple e multiple) d"

subsection \<open>Entries with no matches\<close>

text \<open>\<open>SELECT artistName, trackName FROM history WHERE msPlayed = ?\<close>\<close>

definition duration_matches :: "db \<Rightarrow> int option \<Rightarrow> pair list" where
  "duration_matches d ms =
     map (\<lambda>h. (artistName h, trackName h)) (filter (\<lambda>h. sql_eq (msPlayed h) ms) (history d))"

text \<open>
  The body of the third loop. The state is the store with the sets \<open>missing\<close> and
  \<open>unsure\<close>. \<open>options\<close> is \<open>list(set(matches))\<close>, in the order the environment
  iterates that set, and is what the prompt numbers from 0.
\<close>

fun none_step ::
  "env \<Rightarrow> db \<times> int list \<times> int list \<Rightarrow> int \<Rightarrow> error + (db \<times> int list \<times> int list)"
where
  "none_step e (d, missing, unsure) entry =
     (if count_modified d entry = 0 then
        (case filter (\<lambda>r. eid r = entry) (endsong d) of
           [] \<Rightarrow> Inl TypeError
         | r # rs \<Rightarrow>
             let matches = duration_matches d (ms_played r) in
             if length matches > 0 then
               (if length (remdups matches) > 1 then
                  (let options = iter_options e matches;
                       x = input_index e (ts r) options in
                   if x = ''U'' \<or> x = ''u'' then Inr (d, missing, set_add entry unsure)
                   else
                     (case py_int x of
                        None \<Rightarrow> Inl ValueError
                      | Some k \<Rightarrow>
                          (case py_index options k of
                             None \<Rightarrow> Inl IndexError
                           | Some m \<Rightarrow>
                               Inr (insert_resolved d entry (snd m) (fst m), missing, unsure))))
                else Inr (insert_resolved d entry (snd (matches ! 0)) (fst (matches ! 0)),
                          missing, unsure))
             else Inr (d, set_add entry missing, unsure))
      else Inr (d, missing, unsure))"

definition none_pass :: "env \<Rightarrow> db \<Rightarrow> int list \<Rightarrow> error + (db \<times> int list \<times> int list)" where
  "none_pass e d none = for_each (none_step e) (iter_none e none) (d, [], [])"

text \<open>The three resolver stages in sequence, from \<open>Initial pass\<close> to the end of the no-match loop.\<close>

definition resolvers :: "env \<Rightarrow> db \<Rightarrow> error + (db \<times> int list \<times> int list)" where
  "resolvers e d =
     (case initial_pass d of
        Inl err \<Rightarrow> Inl err
      | Inr (d1, multiple, none) \<Rightarrow>
          (case multiple_pass e d1 multiple of
             Inl err \<Rightarrow> Inl err
           | Inr d2 \<Rightarrow> none_pass e d2 none))"

section \<open>Track data, identifiers and export\<close>

subsection \<open>Track data from endsong\<close>

text \<open>
  \<open>SELECT DISTINCT master_metadata_album_album_name, spotify_track_uri FROM endsong
  WHERE master_metadata_track_name = ? AND master_metadata_album_artist_name = ?
  ORDER BY ts DESC LIMIT 1\<close>. SQLite scans the table, drops a row whose
  (album, uri) pair was already seen (NULL counts as a value there), and sorts what is
  left by the \<open>ts\<close> of the row that was kept, NULL last, ties in scan order.
\<close>

fun first_of_each :: "('a \<Rightarrow> 'b) \<Rightarrow> 'b list \<Rightarrow> 'a list \<Rightarrow> 'a list" where
  "first_of_each f seen [] = []"
| "first_of_each f seen (r # rs) =
     (if f r \<in> set seen then first_of_each f seen rs
      else r # first_of_each f (f r # seen) rs)"

fun latest :: "endsong_row list \<Rightarrow> endsong_row option" where
  "latest [] = None"
| "latest (r # rs) =
     (case latest rs of
        None \<Rightarrow> Some r
      | Some m \<Rightarrow> if ts r < ts m then Some m else Some r)"

definition album_uri :: "endsong_row \<Rightarrow> pair" where
  "album_uri r = (master_metadata_album_album_name r, spotify_track_uri r)"

definition track_data :: "db \<Rightarrow> string option \<Rightarrow> string option \<Rightarrow> pair list" where
  "track_data d track_name artist_name =
     (case latest (first_of_each album_uri []
             (filter (\<lambda>r. sql_eq (master_metadata_track_name r) track_name
                         \<and> sql_eq (master_metadata_album_artist_name r) artist_name)
                (endsong d))) of
        None \<Rightarrow> []
      | Some r \<Rightarrow> [album_uri r])"

text \<open>
  \<open>UPDATE endsong_modified SET master_metadata_album_album_name = ?,
  spotify_track_uri = ? WHERE id = ?\<close>, on one row.
\<close>

definition set_data :: "int \<Rightarrow> pair \<Rightarrow> endsong_row \<Rightarrow> endsong_row" where
  "set_data i x r =
     (if eid r = i
      then r\<lparr>master_metadata_album_album_name := fst x, spotify_track_uri := snd x\<rparr>
      else r)"

definition needs_data :: "endsong_row \<Rightarrow> bool" where
  "needs_data r =
     (master_metadata_album_album_name r = None \<or> spotify_track_uri r = None)"

text \<open>
  The loop \<open>Add track data if applicable\<close> reads \<open>endsong_modified\<close> row by row while
  its body updates the same table, so the rows not yet read are read as updated.
  \<open>seen\<close> holds the rows behind the cursor and the last argument the rows ahead of
  it. \<open>no_extra\<close> is a dict, kept as an association list in insertion order.
  The update is \<open>WHERE id = ?\<close> with the id of the row just read, so it reaches a row
  ahead of the cursor only when two rows of the table have the same id. For such a
  table the function is an approximation: the cursor of the sqlite3 module has already
  stepped to the next row when the body runs, and that row may be read as it was.
  What is proved of this loop is proved for tables whose ids are pairwise distinct,
  where the two readings agree.
\<close>

function add_track_data ::
  "db \<Rightarrow> endsong_row list \<Rightarrow> (pair \<times> int) list \<Rightarrow> endsong_row list
   \<Rightarrow> endsong_row list \<times> (pair \<times> int) list"
where
  "add_track_data d seen no_extra [] = (seen, no_extra)"
| "add_track_data d seen no_extra (r # rs) =
     (if needs_data r then
        (case track_data d (master_metadata_track_name r) (master_metadata_album_artist_name r) of
           [] \<Rightarrow>
             add_track_data d (seen @ [r])
               (AList.update (master_metadata_track_name r, master_metadata_album_artist_name r)
                  (eid r) no_extra) rs
         | x # xs \<Rightarrow>
             add_track_data d (map (set_data (eid r) x) (seen @ [r])) no_extra
               (map (set_data (eid r) x) rs))
      else add_track_data d (seen @ [r]) no_extra rs)"
  by pat_completeness auto

termination
  by (relation "measure (\<lambda>(d, seen, no_extra, rs). length rs)") auto

definition sentinel :: pair where
  "sentinel = (Some ''Unknown Track'', Some ''Unknown Artist'')"

text \<open>\<open>del no_extra[("Unknown Track", "Unknown Artist")]\<close>\<close>

definition del_sentinel :: "(pair \<times> int) list \<Rightarrow> error + (pair \<times> int) list" where
  "del_sentinel no_extra =
     (if sentinel \<in> fst ` set no_extra then Inr (AList.delete sentinel no_extra)
      else Inl KeyError)"

subsection \<open>Track data from the search\<close>

text \<open>
  The body of \<open>for k, v in no_extra.items()\<close>. The state is \<open>endsong_modified\<close> with
  the dict \<open>skipped\<close>, of which only the keys are kept. An accepted result writes the
  album and \<open>split("?")[0][31:]\<close> of the share link to every row of the pair.
\<close>

fun search_step ::
  "env \<Rightarrow> endsong_row list \<times> int list \<Rightarrow> pair \<times> int \<Rightarrow> error + (endsong_row list \<times> int list)"
where
  "search_step e (rows, skipped) (k, v) =
     (case search e k of
        NoResult \<Rightarrow> Inr (rows, skipped)
      | SearchRaised \<Rightarrow> Inl OracleError
      | Rejected \<Rightarrow> Inr (rows, set_add v skipped)
      | Accepted found_album link \<Rightarrow>
          Inr (map (\<lambda>r. if sql_eq (master_metadata_track_name r) (fst k)
                           \<and> sql_eq (master_metadata_album_artist_name r) (snd k)
                        then r\<lparr>master_metadata_album_album_name := Some found_album,
                               spotify_track_uri := Some (strip_url link)\<rparr>
                        else r) rows, skipped))"

subsection \<open>Fixing up Spotify URIs\<close>

text \<open>
  Both passes read \<open>endsong_modified\<close> while updating it, like the track-data loop,
  and are modelled in the same way and with the same proviso for tables in which an id
  repeats. \<open>sel\<close> is the WHERE clause of the SELECT and \<open>fix\<close> computes the new URI.
\<close>

definition set_uri :: "int \<Rightarrow> string \<Rightarrow> endsong_row \<Rightarrow> endsong_row" where
  "set_uri i u r = (if eid r = i then r\<lparr>spotify_track_uri := Some u\<rparr> else r)"

function fix_uris ::
  "(string \<Rightarrow> bool) \<Rightarrow> (string \<Rightarrow> string) \<Rightarrow> endsong_row list \<Rightarrow> endsong_row list
   \<Rightarrow> endsong_row list"
where
  "fix_uris sel fix seen [] = seen"
| "fix_uris sel fix seen (r # rs) =
     (case spotify_track_uri r of
        None \<Rightarrow> fix_uris sel fix (seen @ [r]) rs
      | Some uri \<Rightarrow>
          if sel uri
          then fix_uris sel fix (map (set_uri (eid r) (fix uri)) (seen @ [r]))
                 (map (set_uri (eid r) (fix uri)) rs)
          else fix_uris sel fix (seen @ [r]) rs)"
  by pat_completeness auto

termination
  by (relation "measure (\<lambda>(sel, fix, seen, rs). length rs)") auto

text \<open>\<open>f"spotify:track:{uri}"\<close>\<close>

definition canonical :: "string \<Rightarrow> string" where
  "canonical uri = ''spotify:track:'' @ uri"

text \<open>\<open>WHERE spotify_track_uri LIKE 'https%'\<close>\<close>

definition like_https :: "string \<Rightarrow> bool" where
  "like_https uri = sql_like ''https%'' uri"

text \<open>\<open>WHERE spotify_track_uri NOT LIKE 'spotify%'\<close>\<close>

definition not_like_spotify :: "string \<Rightarrow> bool" where
  "not_like_spotify uri = (\<not> sql_like ''spotify%'' uri)"

text \<open>The first pass: \<open>fixed = "spotify:track:" + uri.split("?")[0][31:]\<close>.\<close>

definition fixup1 :: "endsong_row list \<Rightarrow> endsong_row list" where
  "fixup1 rows = fix_uris like_https (\<lambda>uri. canonical (strip_url uri)) [] rows"

text \<open>The second pass: \<open>fixed = f"spotify:track:{uri}"\<close>.\<close>

definition fixup2 :: "endsong_row list \<Rightarrow> endsong_row list" where
  "fixup2 rows = fix_uris not_like_spotify canonical [] rows"

subsection \<open>Export\<close>

text \<open>
  \<open>DELETE FROM endsong_modified WHERE master_metadata_track_name = 'Unknown Track' AND
  master_metadata_album_artist_name = 'Unknown Artist'\<close>
\<close>

definition is_sentinel :: "endsong_row \<Rightarrow> bool" where
  "is_sentinel r =
     (master_metadata_track_name r = Some ''Unknown Track''
      \<and> master_metadata_album_artist_name r = Some ''Unknown Artist'')"

definition delete_unknown :: "endsong_row list \<Rightarrow> endsong_row list" where
  "delete_unknown rows = filter (\<lambda>r. \<not> is_sentinel r) rows"

section \<open>A run of the script\<close>

text \<open>
  The result of a run that reaches the end: the store as it is backed up (the exported
  file is its \<open>endsong_modified\<close> without the columns source and id) and the three
  reports.
\<close>

record outcome =
  store :: db
  missing_report :: "int list"
  unsure_report :: "int list"
  skipped_report :: "int list"

definition track_data_stage ::
  "env \<Rightarrow> db \<Rightarrow> error + (endsong_row list \<times> int list)"
where
  "track_data_stage e d =
     (case add_track_data d [] [] (endsong_modified d) of
        (rows, no_extra) \<Rightarrow>
          (case del_sentinel no_extra of
             Inl err \<Rightarrow> Inl err
           | Inr no_extra' \<Rightarrow> for_each (search_step e) no_extra' (rows, [])))"

definition run :: "env \<Rightarrow> db \<Rightarrow> error + outcome" where
  "run e d =
     (case resolvers e d of
        Inl err \<Rightarrow> Inl err
      | Inr (d3, missing, unsure) \<Rightarrow>
          (case track_data_stage e d3 of
             Inl err \<Rightarrow> Inl err
           | Inr (rows, skipped) \<Rightarrow>
               Inr \<lparr>store = d3\<lparr>endsong_modified := delete_unknown (fixup2 (fixup1 rows))\<rparr>,
                    missing_report = missing,
                    unsure_report = unsure,
                    skipped_report = skipped\<rparr>))"

section \<open>Auxiliary definitions\<close>

text \<open>
  What one fix-up pass does to one row, and both passes in sequence. On a table whose
  ids are pairwise distinct the passes are these maps (lemma \<open>fixups_distinct\<close>).
\<close>

definition fix_row :: "(string \<Rightarrow> bool) \<Rightarrow> (string \<Rightarrow> string) \<Rightarrow> endsong_row \<Rightarrow> endsong_row" where
  "fix_row sel fix r =
     (case spotify_track_uri r of
        None \<Rightarrow> r
      | Some uri \<Rightarrow> if sel uri then r\<lparr>spotify_track_uri := Some (fix uri)\<rparr> else r)"

definition fixed_row :: "endsong_row \<Rightarrow> endsong_row" where
  "fixed_row r =
     fix_row not_like_spotify canonical (fix_row like_https (\<lambda>uri. canonical (strip_url uri)) r)"

text \<open>Example data: a reconciled row with a given id and URI.\<close>

definition uri_row :: "int \<Rightarrow> string \<Rightarrow> endsong_row" where
  "uri_row i u =
     \<lparr>ts = None, platform = Some ''ios'', ms_played = None,
      master_metadata_track_name = Some ''X'', master_metadata_album_artist_name = Some ''Y'',
      master_metadata_album_album_name = Some ''Z'', spotify_track_uri = Some u,
      offline_timestamp = None, eid = i\<rparr>"

definition fixup_example :: "endsong_row list" where
  "fixup_example =
     [uri_row 0 ''spotify:track:4uLU6hMCjMI75M1A2tKUQC'',
      uri_row 1 ''https://open.spotify.com/track/4uLU6hMCjMI75M1A2tKUQC?si=abc'',
      uri_row 2 ''4uLU6hMCjMI75M1A2tKUQC'']"

text \<open>
  The result of the exact-key query for a primary row, the cluster key it gives when
  the query has several results, and the reconciled row made from a primary row and the
  secondary row that resolves it.
\<close>

definition matches_of :: "db \<Rightarrow> endsong_row \<Rightarrow> hist_row list" where
  "matches_of d r =
     (case ts r of None \<Rightarrow> [] | Some t \<Rightarrow> exact_matches d (minute_key t) (ms_played r))"

definition cluster_key :: "db \<Rightarrow> endsong_row \<Rightarrow> int list" where
  "cluster_key d r = sort (map hid (matches_of d r))"

definition resolved_from :: "hist_row \<Rightarrow> endsong_row \<Rightarrow> endsong_row" where
  "resolved_from m r = set_names (trackName m) (artistName m) r"

text \<open>The primary key of \<open>endsong\<close> and of \<open>history\<close>.\<close>

definition primary_keys :: "db \<Rightarrow> bool" where
  "primary_keys d = (distinct (map eid (endsong d)) \<and> distinct (map hid (history d)))"

text \<open>
  The rows the initial pass appends to \<open>endsong_modified\<close>: one for each primary row
  with exactly one exact match and no reconciled row yet, in scan order.
\<close>

definition resolved_new :: "db \<Rightarrow> endsong_row \<Rightarrow> bool" where
  "resolved_new d r = (length (matches_of d r) = 1 \<and> count_modified d (eid r) = 0)"

definition initial_rows :: "db \<Rightarrow> endsong_row list \<Rightarrow> endsong_row list" where
  "initial_rows d rows =
     map (\<lambda>r. resolved_from (hd (matches_of d r)) r) (filter (resolved_new d) rows)"

text \<open>Adding the elements of a list to a set, one \<open>add\<close> after the other.\<close>

definition add_all :: "'a list \<Rightarrow> 'a list \<Rightarrow> 'a list" where
  "add_all acc xs = foldl (\<lambda>a x. set_add x a) acc xs"

text \<open>
  The primary candidates of a cluster with end time \<open>e\<close> and duration \<open>ms\<close>, in
  the words of the specification: the ios rows of that duration whose timestamp begins
  with the minute \<open>e\<close> (written with T for the space, letter case ignored as LIKE
  does), ordered by \<open>offline_timestamp\<close>.
\<close>

definition begins_with_minute :: "string \<Rightarrow> endsong_row \<Rightarrow> bool" where
  "begins_with_minute e r =
     (case ts r of
        None \<Rightarrow> False
      | Some t \<Rightarrow>
          map sql_lower (take (length e) t)
          = map sql_lower (replace_all (CHR '' '') (CHR ''T'') e))"

definition cluster_rows :: "db \<Rightarrow> int \<Rightarrow> string \<Rightarrow> endsong_row list" where
  "cluster_rows d ms e =
     sort_key offline_timestamp
       (filter (\<lambda>r. platform r = Some ''ios'' \<and> ms_played r = Some ms \<and> begins_with_minute e r)
          (endsong d))"

text \<open>
  How the resolvers change a store: \<open>history\<close> and \<open>endsong\<close> stay, and
  \<open>endsong_modified\<close> gains rows, each the copy of an ios row with new names whose id
  had no reconciled row, no two of them with the same id.
\<close>

definition renamed_ios :: "db \<Rightarrow> endsong_row \<Rightarrow> bool" where
  "renamed_ios d x = (\<exists>r\<in>set (ios_rows d). \<exists>t a. x = set_names t a r)"

definition extends :: "db \<Rightarrow> db \<Rightarrow> bool" where
  "extends d d' =
     (history d' = history d \<and> endsong d' = endsong d
      \<and> (\<exists>new. endsong_modified d' = endsong_modified d @ new
             \<and> (\<forall>x\<in>set new. renamed_ios d x \<and> count_modified d (eid x) = 0)
             \<and> distinct (map eid new)))"

text \<open>
  The invariant of the no-match loop, started in the store \<open>d2\<close>, after the entries
  \<open>pre\<close>: the sets Missing and Unsure hold visited entries only, are disjoint, and
  their members have no reconciled row; a visited entry has a reconciled row or is
  in one of the two sets; an entry not visited has the reconciled rows it had.
\<close>

definition none_inv :: "db \<Rightarrow> int list \<Rightarrow> db \<times> int list \<times> int list \<Rightarrow> bool" where
  "none_inv d2 pre s =
     (case s of (d', m, u) \<Rightarrow>
        extends d2 d'
        \<and> set m \<union> set u \<subseteq> set pre
        \<and> (\<forall>i\<in>set m \<union> set u. count_modified d' i = 0)
        \<and> set m \<inter> set u = {}
        \<and> (\<forall>i\<in>set pre. 0 < count_modified d' i \<or> i \<in> set m \<or> i \<in> set u)
        \<and> (\<forall>i. i \<notin> set pre \<longrightarrow> count_modified d' i = count_modified d2 i))"

text \<open>
  What the track-data loop does to one row and to the dict \<open>no_extra\<close>, when the
  ids of the table are pairwise distinct (lemma \<open>add_track_data_distinct\<close>).
\<close>

definition names :: "endsong_row \<Rightarrow> pair" where
  "names r = (master_metadata_track_name r, master_metadata_album_artist_name r)"

definition enrich :: "db \<Rightarrow> endsong_row \<Rightarrow> endsong_row" where
  "enrich d r =
     (if needs_data r then
        (case track_data d (master_metadata_track_name r) (master_metadata_album_artist_name r) of
           [] \<Rightarrow> r
         | x # xs \<Rightarrow> set_data (eid r) x r)
      else r)"

definition unplaced :: "db \<Rightarrow> endsong_row \<Rightarrow> bool" where
  "unplaced d r =
     (needs_data r
      \<and> track_data d (master_metadata_track_name r) (master_metadata_album_artist_name r) = [])"

definition queue :: "db \<Rightarrow> (pair \<times> int) list \<Rightarrow> endsong_row list \<Rightarrow> (pair \<times> int) list" where
  "queue d no_extra rows =
     foldl (\<lambda>ne r. if unplaced d r then AList.update (names r) (eid r) ne else ne) no_extra rows"

text \<open>The primary rows that the track-data lookup for a (track, artist) pair matches.\<close>

definition same_song :: "db \<Rightarrow> string option \<Rightarrow> string option \<Rightarrow> endsong_row list" where
  "same_song d track_name artist_name =
     filter (\<lambda>r. sql_eq (master_metadata_track_name r) track_name
               \<and> sql_eq (master_metadata_album_artist_name r) artist_name)
       (endsong d)"

text \<open>
  For the second run. \<open>rerun F d\<close> is the store that the second run has where the
  first run has \<open>d\<close>: the exported rows \<open>F\<close> of the first run, followed by the rows
  with the unknown pair, which the first run deleted at its end and the second makes
  again. \<open>searched e K\<close> is what the search loop over the keys \<open>K\<close> does to one row.
\<close>

definition rerun :: "endsong_row list \<Rightarrow> db \<Rightarrow> db" where
  "rerun F d = d\<lparr>endsong_modified := F @ filter is_sentinel (endsong_modified d)\<rparr>"

definition found_data :: "env \<Rightarrow> endsong_row \<Rightarrow> endsong_row" where
  "found_data e r =
     (case search e (names r) of
        Accepted found_album link \<Rightarrow>
          r\<lparr>master_metadata_album_album_name := Some found_album,
            spotify_track_uri := Some (strip_url link)\<rparr>
      | _ \<Rightarrow> r)"

definition searched :: "env \<Rightarrow> pair set \<Rightarrow> endsong_row \<Rightarrow> endsong_row" where
  "searched e K r =
     (if names r \<in> K \<and> fst (names r) \<noteq> None \<and> snd (names r) \<noteq> None
      then found_data e r else r)"

text \<open>
  \<open>pending d rows\<close> are the keys that the track-data loop puts into \<open>no_extra\<close>, and
  \<open>settled e d K\<close> is what the stages after the resolvers do to one row when the search
  loop runs over the keys \<open>K\<close>.
\<close>

definition pending :: "db \<Rightarrow> endsong_row list \<Rightarrow> pair set" where
  "pending d rows = names ` {r \<in> set rows. unplaced d r}"

definition settled :: "env \<Rightarrow> db \<Rightarrow> pair set \<Rightarrow> endsong_row \<Rightarrow> endsong_row" where
  "settled e d K r = fixed_row (searched e K (enrich d r))"

text \<open>
  \<open>quote_free d\<close>: no end time of the secondary log holds an apostrophe, so that the
  query of the cluster loop is the one the script writes. \<open>appends d d'\<close>: the store
  \<open>d'\<close> is \<open>d\<close> with rows added at the end of \<open>endsong_modified\<close>.
\<close>

definition quote_free :: "db \<Rightarrow> bool" where
  "quote_free d = (\<forall>h\<in>set (history d). \<forall>t. endTime h = Some t \<longrightarrow> CHR 0x27 \<notin> set t)"

definition appends :: "db \<Rightarrow> db \<Rightarrow> bool" where
  "appends d d' =
     (history d' = history d \<and> endsong d' = endsong d
      \<and> (\<exists>new. endsong_modified d' = endsong_modified d @ new))"

section \<open>Example data\<close>

text \<open>
  A small store. Secondary rows: one that matches a primary row alone (the first
  scenario of the specification), two that collide on minute and duration, three of
  duration 42000 over two distinct (artist, track) pairs, and one that carries the
  reserved unknown pair. Primary rows: 10 has one exact match; 11, 12 and 13 share the
  minute and duration of the collision; 14 has no exact match and the duration 42000;
  15 matches nothing; 16 matches the unknown pair; 17 is not an ios row.
\<close>

definition hist :: "string \<Rightarrow> string \<Rightarrow> string \<Rightarrow> int \<Rightarrow> int \<Rightarrow> hist_row" where
  "hist e a t ms i =
     \<lparr>endTime = Some e, artistName = Some a, trackName = Some t, msPlayed = Some ms, hid = i\<rparr>"

definition broken :: "string \<Rightarrow> int \<Rightarrow> int \<Rightarrow> int \<Rightarrow> endsong_row" where
  "broken t ms off i =
     \<lparr>ts = Some t, platform = Some ''ios'', ms_played = Some ms,
      master_metadata_track_name = None, master_metadata_album_artist_name = None,
      master_metadata_album_album_name = None, spotify_track_uri = None,
      offline_timestamp = Some off, eid = i\<rparr>"

definition intact :: "endsong_row" where
  "intact =
     \<lparr>ts = Some ''2022-01-01T10:15:50Z'', platform = Some ''android'', ms_played = Some 180000,
      master_metadata_track_name = Some ''X'', master_metadata_album_artist_name = Some ''Y'',
      master_metadata_album_album_name = Some ''Z'',
      spotify_track_uri = Some ''spotify:track:4uLU6hMCjMI75M1A2tKUQC'',
      offline_timestamp = Some 50, eid = 17\<rparr>"

definition store_ex :: db where
  "store_ex =
     \<lparr>history =
        [hist ''2022-01-01 10:15'' ''Y'' ''X'' 180000 0,
         hist ''2022-01-01 10:20'' ''A1'' ''T1'' 200000 1,
         hist ''2022-01-01 10:20'' ''A2'' ''T2'' 200000 2,
         hist ''2022-01-02 09:00'' ''B1'' ''S1'' 42000 3,
         hist ''2022-01-02 09:30'' ''B2'' ''S2'' 42000 4,
         hist ''2022-01-02 09:45'' ''B1'' ''S1'' 42000 5,
         hist ''2022-01-03 08:00'' ''Unknown Artist'' ''Unknown Track'' 1000 6],
      endsong =
        [broken ''2022-01-01T10:15:32Z'' 180000 100 10,
         broken ''2022-01-01T10:20:05Z'' 200000 300 11,
         broken ''2022-01-01T10:20:40Z'' 200000 200 12,
         broken ''2022-01-01T10:20:59Z'' 200000 400 13,
         broken ''2022-01-05T12:00:00Z'' 42000 500 14,
         broken ''2022-01-06T12:00:00Z'' 777 600 15,
         broken ''2022-01-03T08:00:10Z'' 1000 700 16,
         intact],
      endsong_modified = []\<rparr>"

text \<open>
  An environment: sets are iterated in insertion order, the operator types the given
  line at every prompt, the search finds nothing, and a query rewritten by an
  apostrophe is rejected.
\<close>

definition env_ex :: "string \<Rightarrow> env" where
  "env_ex line =
     \<lparr>iter_multiple = (\<lambda>xs. xs), iter_none = (\<lambda>xs. xs), iter_options = remdups,
      input_index = (\<lambda>t options. line), search = (\<lambda>k. NoResult),
      rewritten = (\<lambda>d ms t. Inl OperationalError)\<rparr>"

text \<open>
  The reconciled rows of the example store after the three resolver stages, when the
  operator answers 1, and after the whole run.
\<close>

definition ex_resolved :: "endsong_row list" where
  "ex_resolved =
     [(broken ''2022-01-01T10:15:32Z'' 180000 100 10)
        \<lparr>master_metadata_track_name := Some ''X'',
         master_metadata_album_artist_name := Some ''Y''\<rparr>,
      (broken ''2022-01-03T08:00:10Z'' 1000 700 16)
        \<lparr>master_metadata_track_name := Some ''Unknown Track'',
         master_metadata_album_artist_name := Some ''Unknown Artist''\<rparr>,
      (broken ''2022-01-01T10:20:40Z'' 200000 200 12)
        \<lparr>master_metadata_track_name := Some ''T1'',
         master_metadata_album_artist_name := Some ''A1''\<rparr>,
      (broken ''2022-01-01T10:20:05Z'' 200000 300 11)
        \<lparr>master_metadata_track_name := Some ''T2'',
         master_metadata_album_artist_name := Some ''A2''\<rparr>,
      (broken ''2022-01-05T12:00:00Z'' 42000 500 14)
        \<lparr>master_metadata_track_name := Some ''S1'',
         master_metadata_album_artist_name := Some ''B1''\<rparr>]"

definition ex_exported :: "endsong_row list" where
  "ex_exported =
     [((broken ''2022-01-01T10:15:32Z'' 180000 100 10)
        \<lparr>master_metadata_track_name := Some ''X'',
         master_metadata_album_artist_name := Some ''Y''\<rparr>)
        \<lparr>master_metadata_album_album_name := Some ''Z'',
         spotify_track_uri := Some ''spotify:track:4uLU6hMCjMI75M1A2tKUQC''\<rparr>,
      (broken ''2022-01-01T10:20:40Z'' 200000 200 12)
        \<lparr>master_metadata_track_name := Some ''T1'',
         master_metadata_album_artist_name := Some ''A1''\<rparr>,
      (broken ''2022-01-01T10:20:05Z'' 200000 300 11)
        \<lparr>master_metadata_track_name := Some ''T2'',
         master_metadata_album_artist_name := Some ''A2''\<rparr>,
      (broken ''2022-01-05T12:00:00Z'' 42000 500 14)
        \<lparr>master_metadata_track_name := Some ''S1'',
         master_metadata_album_artist_name := Some ''B1''\<rparr>]"

text \<open>
  A store with one ios row whose track and artist are not NULL, and a secondary row
  of its minute and duration under other names.
\<close>

definition named_row :: endsong_row where
  "named_row =
     \<lparr>ts = Some ''2022-01-01T10:15:32Z'', platform = Some ''ios'', ms_played = Some 180000,
      master_metadata_track_name = Some ''P'', master_metadata_album_artist_name = Some ''Q'',
      master_metadata_album_album_name = Some ''R'',
      spotify_track_uri = Some ''spotify:track:4uLU6hMCjMI75M1A2tKUQC'',
      offline_timestamp = Some 100, eid = 10\<rparr>"

definition store_named :: db where
  "store_named =
     \<lparr>history = [hist ''2022-01-01 10:15'' ''Y'' ''X'' 180000 0],
      endsong = [named_row],
      endsong_modified = []\<rparr>"

text \<open>The first scenario of the specification alone: one broken row and its one match.\<close>

definition store_scenario :: db where
  "store_scenario =
     \<lparr>history = [hist ''2022-01-01 10:15'' ''Y'' ''X'' 180000 0],
      endsong = [broken ''2022-01-01T10:15:32'' 180000 100 10],
      endsong_modified = []\<rparr>"

text \<open>
  A store whose only primary row with the names X and Y has neither album nor URI, and
  the reconciled row that the initial pass makes of its broken row.
\<close>

definition store_null :: db where
  "store_null =
     \<lparr>history = [hist ''2022-01-01 10:15'' ''Y'' ''X'' 180000 0],
      endsong =
        [broken ''2022-01-01T10:15:32Z'' 180000 100 10,
         intact\<lparr>master_metadata_album_album_name := None, spotify_track_uri := None\<rparr>],
      endsong_modified = []\<rparr>"

definition row_null :: endsong_row where
  "row_null =
     (broken ''2022-01-01T10:15:32Z'' 180000 100 10)
       \<lparr>master_metadata_track_name := Some ''X'',
        master_metadata_album_artist_name := Some ''Y''\<rparr>"

text \<open>
  A store in which the end time of a cluster holds an apostrophe: the text of the
  cluster query then reads \<open>ts LIKE 'x'OR(1)--%' ORDER BY offline_timestamp\<close>, which
  SQLite runs as a query that selects every row of \<open>endsong\<close>. The environment
  \<open>env_quote\<close> gives that answer.
\<close>

definition quoted_time :: string where
  "quoted_time = ''x'' @ [CHR 0x27] @ ''OR(1)--''"

definition store_quote :: db where
  "store_quote =
     \<lparr>history = [hist quoted_time ''A1'' ''T1'' 5 1, hist quoted_time ''A2'' ''T2'' 5 2],
      endsong = [broken quoted_time 5 100 10, intact],
      endsong_modified = []\<rparr>"

definition env_quote :: env where
  "env_quote = (env_ex ''1'')\<lparr>rewritten := (\<lambda>d ms t. Inr (map eid (endsong d)))\<rparr>"

section \<open>Identifier normalization\<close>

lemma sql_like_percent: "sql_like ''%'' s"
  by (induction s) auto

lemma like_https_canonical: "\<not> like_https (canonical x)"
  by (simp add: like_https_def canonical_def sql_lower_def)

lemma like_spotify_canonical: "\<not> not_like_spotify (canonical x)"
  by (simp add: not_like_spotify_def canonical_def sql_lower_def sql_like_percent)

lemma like_https_prefix: "like_https (''https'' @ x)"
  by (simp add: like_https_def sql_lower_def sql_like_percent)

lemma strip_url_form:
  "length p = 31 \<Longrightarrow> CHR ''?'' \<notin> set p \<Longrightarrow> CHR ''?'' \<notin> set i \<Longrightarrow>
   strip_url (p @ i @ CHR ''?'' # q) = i"
  by (simp add: strip_url_def takeWhile_append)

lemma map_set_uri_other: "i \<notin> eid ` set xs \<Longrightarrow> map (set_uri i u) xs = xs"
  by (induction xs) (auto simp: set_uri_def)

lemma fix_uris_distinct:
  "distinct (map eid (seen @ rs)) \<Longrightarrow> fix_uris sel fix seen rs = seen @ map (fix_row sel fix) rs"
proof (induction rs arbitrary: seen)
  case Nil
  then show ?case by simp
next
  case (Cons r rs)
  have d: "distinct (map eid ((seen @ [r]) @ rs))" using Cons.prems by simp
  have ns: "eid r \<notin> eid ` set seen" and nr: "eid r \<notin> eid ` set rs"
    using Cons.prems by auto
  show ?case
  proof (cases "spotify_track_uri r")
    case None
    then show ?thesis using Cons.IH [OF d] by (simp add: fix_row_def)
  next
    case (Some uri)
    show ?thesis
    proof (cases "sel uri")
      case False
      then show ?thesis using Some Cons.IH [OF d] by (simp add: fix_row_def)
    next
      case True
      let ?r' = "r\<lparr>spotify_track_uri := Some (fix uri)\<rparr>"
      have d': "distinct (map eid ((seen @ [?r']) @ rs))" using Cons.prems by simp
      have "fix_uris sel fix seen (r # rs) = fix_uris sel fix (seen @ [?r']) rs"
        using Some True map_set_uri_other [OF ns] map_set_uri_other [OF nr]
        by (simp add: set_uri_def)
      then show ?thesis using Some True Cons.IH [OF d'] by (simp add: fix_row_def)
    qed
  qed
qed

lemma eid_fix_row: "eid (fix_row sel fix r) = eid r"
  by (simp add: fix_row_def split: option.splits)

lemma fixups_distinct:
  assumes "distinct (map eid rows)"
  shows "fixup2 (fixup1 rows) = map fixed_row rows"
proof -
  have 1: "fixup1 rows = map (fix_row like_https (\<lambda>uri. canonical (strip_url uri))) rows"
    unfolding fixup1_def using fix_uris_distinct [of "[]" rows] assms by simp
  have "map eid (fixup1 rows) = map eid rows"
    unfolding 1 by (simp add: eid_fix_row comp_def)
  then have "distinct (map eid ([] @ fixup1 rows))" using assms by simp
  then have "fixup2 (fixup1 rows) = map (fix_row not_like_spotify canonical) (fixup1 rows)"
    unfolding fixup2_def using fix_uris_distinct [of "[]" "fixup1 rows"] by simp
  then show ?thesis
    unfolding 1 by (simp add: fixed_row_def comp_def)
qed


lemma sql_like_prefix:
  "CHR ''%'' \<notin> set p \<Longrightarrow> CHR ''_'' \<notin> set p \<Longrightarrow>
   sql_like (p @ ''%'') s = (map sql_lower (take (length p) s) = map sql_lower p)"
proof (induction p arbitrary: s)
  case Nil
  then show ?case by (simp add: sql_like_percent)
next
  case (Cons a p)
  then show ?case by (cases s) auto
qed

lemma like_https_iff: "like_https i = (map sql_lower (take 5 i) = ''https'')"
  unfolding like_https_def using sql_like_prefix [of "''https''" i]
  by (simp add: sql_lower_def eval_nat_numeral)

lemma not_like_spotify_iff: "not_like_spotify i = (map sql_lower (take 7 i) \<noteq> ''spotify'')"
  unfolding not_like_spotify_def using sql_like_prefix [of "''spotify''" i]
  by (simp add: sql_lower_def eval_nat_numeral)

lemma fixed_row_canonical:
  "spotify_track_uri r = Some (canonical i) \<Longrightarrow> fixed_row r = r"
  by (simp add: fixed_row_def fix_row_def like_https_canonical like_spotify_canonical)

lemma fixed_row_url:
  assumes "spotify_track_uri r = Some (''https'' @ p @ i @ CHR ''?'' # q)"
    and "length p = 26" and "CHR ''?'' \<notin> set p" and "CHR ''?'' \<notin> set i"
  shows "spotify_track_uri (fixed_row r) = Some (canonical i)"
proof -
  have "strip_url ((''https'' @ p) @ i @ CHR ''?'' # q) = i"
    by (rule strip_url_form) (use assms in auto)
  then have s: "strip_url (''https'' @ p @ i @ CHR ''?'' # q) = i" by simp
  show ?thesis
    using assms(1) like_https_prefix [of "p @ i @ CHR ''?'' # q"] like_spotify_canonical [of i]
    by (simp add: fixed_row_def fix_row_def s del: append.simps)
qed

lemma fixed_row_bare:
  assumes "spotify_track_uri r = Some i" and "\<not> like_https i" and "not_like_spotify i"
  shows "spotify_track_uri (fixed_row r) = Some (canonical i)"
  using assms by (simp add: fixed_row_def fix_row_def)

text \<open>
  Claim C10, as amended. In a reconciled table with pairwise distinct ids, the two fix-up
  passes leave a row whose URI is already \<open>spotify:track:<id>\<close> unchanged; they turn
  the URL form of a track (an https URL whose path prefix has 31 characters, followed
  by the identifier and the query parameters) into \<open>spotify:track:<id>\<close>; and they
  turn the bare identifier of the same track into the same value, provided the bare
  identifier does not itself begin with \<open>https\<close> or \<open>spotify\<close> in any letter case,
  which is how the two passes tell the forms apart.
\<close>

theorem uri_fixup_round_trip:
  assumes "distinct (map eid rows)"
    and "a < length rows" and "b < length rows" and "c < length rows"
    and "spotify_track_uri (rows ! a) = Some (canonical i)"
    and "spotify_track_uri (rows ! b) = Some (''https'' @ p @ i @ CHR ''?'' # q)"
    and "length p = 26" and "CHR ''?'' \<notin> set p" and "CHR ''?'' \<notin> set i"
    and "spotify_track_uri (rows ! c) = Some i"
    and "map sql_lower (take 5 i) \<noteq> ''https''"
    and "map sql_lower (take 7 i) \<noteq> ''spotify''"
  shows "fixup2 (fixup1 rows) ! a = rows ! a
       \<and> spotify_track_uri (fixup2 (fixup1 rows) ! b) = Some (canonical i)
       \<and> spotify_track_uri (fixup2 (fixup1 rows) ! c) = Some (canonical i)"
proof -
  have f: "fixup2 (fixup1 rows) = map fixed_row rows"
    using assms(1) by (rule fixups_distinct)
  have 1: "fixed_row (rows ! a) = rows ! a"
    using assms(5) by (rule fixed_row_canonical)
  have 2: "spotify_track_uri (fixed_row (rows ! b)) = Some (canonical i)"
    using assms(6-9) by (rule fixed_row_url)
  have 3: "spotify_track_uri (fixed_row (rows ! c)) = Some (canonical i)"
    using assms(10-12) by (intro fixed_row_bare) (simp_all add: like_https_iff not_like_spotify_iff)
  show ?thesis
    using assms(2-4) 1 2 3 by (simp add: f)
qed

text \<open>The three forms of one track in one table.\<close>

theorem uri_fixup_round_trip_witness:
  "fixup2 (fixup1 fixup_example) ! 0 = fixup_example ! 0
   \<and> spotify_track_uri (fixup2 (fixup1 fixup_example) ! 1)
       = Some (canonical ''4uLU6hMCjMI75M1A2tKUQC'')
   \<and> spotify_track_uri (fixup2 (fixup1 fixup_example) ! 2)
       = Some (canonical ''4uLU6hMCjMI75M1A2tKUQC'')"
  by (rule uri_fixup_round_trip [of fixup_example 0 1 2 "''4uLU6hMCjMI75M1A2tKUQC''"
        "''://open.spotify.com/track/''" "''si=abc''"])
     (simp_all add: fixup_example_def uri_row_def canonical_def sql_lower_def)

text \<open>
  Claim C10 as stated fails for an identifier that begins with \<open>https\<close>: its URL form
  is normalized to \<open>spotify:track:<id>\<close>, its bare form is taken for a URL and cut
  down to \<open>spotify:track:\<close>.
\<close>

theorem uri_fixup_counterexample:
  "map spotify_track_uri
     (fixup2 (fixup1
        [uri_row 1 ''https://open.spotify.com/track/httpsAAAAAAAAAAAAAAAAA?si=abc'',
         uri_row 2 ''httpsAAAAAAAAAAAAAAAAA'']))
   = [Some ''spotify:track:httpsAAAAAAAAAAAAAAAAA'', Some ''spotify:track:'']"
  by (simp add: fixup1_def fixup2_def uri_row_def canonical_def like_https_def
      not_like_spotify_def strip_url_def set_uri_def sql_lower_def)

section \<open>The initial pass\<close>

lemma set_set_add [simp]: "set (set_add x xs) = insert x (set xs)"
  by (auto simp: set_add_def)

lemma distinct_set_add [simp]: "distinct (set_add x xs) = distinct xs"
  by (auto simp: set_add_def)

lemma history_insert_resolved [simp]: "history (insert_resolved d i t a) = history d"
  and endsong_insert_resolved [simp]: "endsong (insert_resolved d i t a) = endsong d"
  by (simp_all add: insert_resolved_def)

lemma filter_eid_single:
  "distinct (map eid rows) \<Longrightarrow> r \<in> set rows \<Longrightarrow> filter (\<lambda>q. eid q = eid r) rows = [r]"
proof (induction rows)
  case Nil
  then show ?case by simp
next
  case (Cons a rows)
  show ?case
  proof (cases "a = r")
    case True
    then have "\<forall>q\<in>set rows. eid q \<noteq> eid r" using Cons.prems by (auto simp: image_iff)
    then have "filter (\<lambda>q. eid q = eid r) rows = []" by (simp add: filter_empty_conv)
    then show ?thesis using True by simp
  next
    case False
    then have "r \<in> set rows" using Cons.prems by simp
    moreover have "eid a \<noteq> eid r" using Cons.prems \<open>r \<in> set rows\<close> by (auto simp: image_iff)
    ultimately show ?thesis using Cons by simp
  qed
qed

lemma eid_set_names [simp]: "eid (set_names t a r) = eid r"
  by (simp add: set_names_def)

lemma map_names_other:
  "\<forall>q\<in>set rows. eid q \<noteq> i \<Longrightarrow> map (\<lambda>r. if eid r = i then set_names t a r else r) rows = rows"
  by (induction rows) auto

lemma insert_resolved_single:
  assumes "distinct (map eid (endsong d))" and "r \<in> set (endsong d)"
    and "count_modified d (eid r) = 0"
  shows "insert_resolved d (eid r) t a
         = d\<lparr>endsong_modified := endsong_modified d @ [set_names t a r]\<rparr>"
proof -
  have "\<forall>q\<in>set (endsong_modified d). eid q \<noteq> eid r"
    using assms(3) by (simp add: count_modified_def filter_empty_conv)
  then show ?thesis
    using filter_eid_single [OF assms(1,2)]
    by (simp add: insert_resolved_def map_names_other)
qed


lemma matches_of_history: "history d' = history d \<Longrightarrow> matches_of d' r = matches_of d r"
  by (simp add: matches_of_def exact_matches_def split: option.splits)

lemma count_modified_append:
  "count_modified (d\<lparr>endsong_modified := endsong_modified d @ xs\<rparr>) i
   = count_modified d i + length (filter (\<lambda>r. eid r = i) xs)"
  by (simp add: count_modified_def)

lemma initial_rows_cong:
  assumes "history d' = history d"
    and "\<forall>r\<in>set rows. count_modified d' (eid r) = count_modified d (eid r)"
  shows "initial_rows d' rows = initial_rows d rows"
proof -
  have m: "\<And>r. matches_of d' r = matches_of d r"
    using assms(1) by (rule matches_of_history)
  have "filter (resolved_new d') rows = filter (resolved_new d) rows"
    using assms(2) by (intro filter_cong) (auto simp: resolved_new_def m)
  then show ?thesis
    by (simp add: initial_rows_def m)
qed

lemma matches_of_modified [simp]:
  "matches_of (d\<lparr>endsong_modified := x\<rparr>) = matches_of d"
  by (rule ext) (rule matches_of_history, simp)

lemma cluster_key_modified [simp]:
  "cluster_key (d\<lparr>endsong_modified := x\<rparr>) = cluster_key d"
  by (rule ext) (simp add: cluster_key_def)

lemma add_all_Nil [simp]: "add_all acc [] = acc"
  and add_all_Cons [simp]: "add_all acc (x # xs) = add_all (set_add x acc) xs"
  by (simp_all add: add_all_def)

lemma set_add_all [simp]: "set (add_all acc xs) = set acc \<union> set xs"
  by (induction xs arbitrary: acc) auto

lemma distinct_add_all [simp]: "distinct (add_all acc xs) = distinct acc"
  by (induction xs arbitrary: acc) auto

lemma initial_step_eq:
  assumes "ts row = Some t"
  shows "initial_step (d, multiple, none) row =
     (if length (matches_of d row) = 1 then
        (if count_modified d (eid row) = 0
         then Inr (insert_resolved d (eid row) (trackName (hd (matches_of d row)))
                     (artistName (hd (matches_of d row))), multiple, none)
         else Inr (d, multiple, none))
      else if length (matches_of d row) > 1 then
        Inr (d, set_add (cluster_key d row) multiple, none)
      else Inr (d, multiple, set_add (eid row) none))"
proof (cases "exact_matches d (minute_key t) (ms_played row)")
  case Nil
  then show ?thesis using assms by (simp add: matches_of_def cluster_key_def)
next
  case (Cons m ms)
  then show ?thesis using assms by (simp add: matches_of_def cluster_key_def)
qed

lemma initial_step_None: "ts row = None \<Longrightarrow> initial_step (d, multiple, none) row = Inl TypeError"
  by simp

declare initial_step.simps [simp del]

lemma initial_loop:
  assumes "distinct (map eid (endsong d))" and "set rows \<subseteq> set (endsong d)"
    and "distinct (map eid rows)" and "\<forall>r\<in>set rows. ts r \<noteq> None"
  shows "for_each initial_step rows (d, mult, none)
        = Inr (d\<lparr>endsong_modified := endsong_modified d @ initial_rows d rows\<rparr>,
               add_all mult (map (cluster_key d) (filter (\<lambda>r. 1 < length (matches_of d r)) rows)),
               add_all none (map eid (filter (\<lambda>r. matches_of d r = []) rows)))"
  using assms
proof (induction rows arbitrary: d mult none)
  case Nil
  then show ?case by (simp add: initial_rows_def)
next
  case (Cons r rows)
  obtain t where t: "ts r = Some t" using Cons.prems(4) by auto
  have rin: "r \<in> set (endsong d)" using Cons.prems(2) by simp
  have others: "\<forall>q\<in>set rows. eid q \<noteq> eid r" using Cons.prems(3) by (auto simp: image_iff)
  have sub: "set rows \<subseteq> set (endsong d)" and dr: "distinct (map eid rows)"
    and tsn: "\<forall>r\<in>set rows. ts r \<noteq> None"
    using Cons.prems by auto
  note IH = Cons.IH [OF _ _ dr tsn]
  consider (one_new) "length (matches_of d r) = 1" "count_modified d (eid r) = 0"
    | (one_old) "length (matches_of d r) = 1" "count_modified d (eid r) \<noteq> 0"
    | (many) "length (matches_of d r) > 1"
    | (zero) "matches_of d r = []"
    by (cases "matches_of d r") auto
  then show ?case
  proof cases
    case one_new
    let ?x = "resolved_from (hd (matches_of d r)) r"
    let ?d' = "d\<lparr>endsong_modified := endsong_modified d @ [?x]\<rparr>"
    have step: "initial_step (d, mult, none) r = Inr (?d', mult, none)"
      using one_new insert_resolved_single [OF Cons.prems(1) rin one_new(2)]
      by (simp add: initial_step_eq [OF t] resolved_from_def)
    have cnt: "\<forall>q\<in>set rows. count_modified ?d' (eid q) = count_modified d (eid q)"
      using others by (auto simp: count_modified_append resolved_from_def)
    have rows': "initial_rows ?d' rows = initial_rows d rows"
      by (rule initial_rows_cong) (use cnt in simp_all)
    have ir: "initial_rows d (r # rows) = ?x # initial_rows d rows"
      using one_new by (simp add: initial_rows_def resolved_new_def)
    have "for_each initial_step rows (?d', mult, none)
        = Inr (?d'\<lparr>endsong_modified := endsong_modified ?d' @ initial_rows ?d' rows\<rparr>,
               add_all mult (map (cluster_key ?d') (filter (\<lambda>r. 1 < length (matches_of ?d' r)) rows)),
               add_all none (map eid (filter (\<lambda>r. matches_of ?d' r = []) rows)))"
      by (rule IH) (use Cons.prems(1) sub in simp_all)
    moreover have "matches_of d r \<noteq> []" using one_new(1) by auto
    ultimately show ?thesis
      using step rows' ir one_new(1) by simp
  next
    case one_old
    have step: "initial_step (d, mult, none) r = Inr (d, mult, none)"
      using one_old by (simp add: initial_step_eq [OF t])
    have ir: "initial_rows d (r # rows) = initial_rows d rows"
      using one_old by (simp add: initial_rows_def resolved_new_def)
    have "matches_of d r \<noteq> []" using one_old(1) by auto
    then show ?thesis
      using step ir one_old(1) IH [OF Cons.prems(1) sub, of mult none] by simp
  next
    case many
    have step: "initial_step (d, mult, none) r = Inr (d, set_add (cluster_key d r) mult, none)"
      using many by (simp add: initial_step_eq [OF t])
    have ir: "initial_rows d (r # rows) = initial_rows d rows"
      using many by (simp add: initial_rows_def resolved_new_def)
    have "matches_of d r \<noteq> []" using many by auto
    then show ?thesis
      using step ir many IH [OF Cons.prems(1) sub, of "set_add (cluster_key d r) mult" none]
      by simp
  next
    case zero
    have step: "initial_step (d, mult, none) r = Inr (d, mult, set_add (eid r) none)"
      using zero by (simp add: initial_step_eq [OF t])
    have ir: "initial_rows d (r # rows) = initial_rows d rows"
      using zero by (simp add: initial_rows_def resolved_new_def)
    show ?thesis
      using step ir zero IH [OF Cons.prems(1) sub, of mult "set_add (eid r) none"]
      by simp
  qed
qed




lemma iterates_sets_env_ex: "iterates_sets (env_ex line)"
  by (simp add: iterates_sets_def env_ex_def)

lemmas store_ex_defs =
  store_ex_def hist_def broken_def intact_def ios_rows_def matches_of_def exact_matches_def
  minute_key_def sql_eq_def count_modified_def set_names_def


section \<open>Entries with multiple matches\<close>

lemma history_resolve_pair [simp]: "history (resolve_pair d p) = history d"
  and endsong_resolve_pair [simp]: "endsong (resolve_pair d p) = endsong d"
  by (simp_all add: resolve_pair_def split: prod.splits)

lemma resolve_pairs:
  assumes "distinct (map eid (endsong d))" and "snd ` set ps \<subseteq> set (endsong d)"
    and "distinct (map (\<lambda>p. eid (snd p)) ps)"
  shows "foldl resolve_pair d (map (\<lambda>p. (fst p, eid (snd p))) ps)
       = d\<lparr>endsong_modified :=
             endsong_modified d
             @ map (\<lambda>p. resolved_from (fst p) (snd p))
                 (filter (\<lambda>p. count_modified d (eid (snd p)) = 0) ps)\<rparr>"
  using assms
proof (induction ps arbitrary: d)
  case Nil
  then show ?case by simp
next
  case (Cons p ps)
  obtain h r where p: "p = (h, r)" by (cases p)
  have rin: "r \<in> set (endsong d)" using Cons.prems(2) p by simp
  have others: "\<forall>q\<in>set ps. eid (snd q) \<noteq> eid r"
    using Cons.prems(3) p by (auto simp: image_iff)
  have sub: "snd ` set ps \<subseteq> set (endsong d)" and dr: "distinct (map (\<lambda>p. eid (snd p)) ps)"
    using Cons.prems by auto
  show ?case
  proof (cases "count_modified d (eid r) = 0")
    case True
    let ?d' = "d\<lparr>endsong_modified := endsong_modified d @ [resolved_from h r]\<rparr>"
    have step: "resolve_pair d (h, eid r) = ?d'"
      using True insert_resolved_single [OF Cons.prems(1) rin True]
      by (simp add: resolve_pair_def resolved_from_def)
    have cnt: "\<forall>q\<in>set ps. count_modified ?d' (eid (snd q)) = count_modified d (eid (snd q))"
      using others by (auto simp: count_modified_append resolved_from_def)
    have f: "filter (\<lambda>p. count_modified ?d' (eid (snd p)) = 0) ps
           = filter (\<lambda>p. count_modified d (eid (snd p)) = 0) ps"
      using cnt by (intro filter_cong) auto
    have "foldl resolve_pair ?d' (map (\<lambda>p. (fst p, eid (snd p))) ps)
       = ?d'\<lparr>endsong_modified :=
             endsong_modified ?d'
             @ map (\<lambda>p. resolved_from (fst p) (snd p))
                 (filter (\<lambda>p. count_modified ?d' (eid (snd p)) = 0) ps)\<rparr>"
      by (rule Cons.IH) (use Cons.prems(1) sub dr in simp_all)
    then show ?thesis
      using step True p unfolding f by simp
  next
    case False
    have step: "resolve_pair d (h, eid r) = d"
      using False by (simp add: resolve_pair_def)
    show ?thesis
      using step False p Cons.IH [OF Cons.prems(1) sub dr] by simp
  qed
qed

lemma distinct_map_insort_key:
  "distinct (map g (insort_key f x xs)) = distinct (map g (x # xs))"
  by (induction xs) (auto simp: set_insort_key)

lemma distinct_map_sort_key:
  "distinct (map g (sort_key f xs)) = distinct (map g xs)"
  by (induction xs) (simp_all add: distinct_map_insort_key set_sort)

lemma ts_like_prefix:
  assumes "CHR ''%'' \<notin> set e" and "CHR ''_'' \<notin> set e"
  shows "sql_like (ts_like e) t
       = (map sql_lower (take (length e) t)
          = map sql_lower (replace_all (CHR '' '') (CHR ''T'') e))"
proof -
  let ?p = "replace_all (CHR '' '') (CHR ''T'') e"
  have "CHR ''%'' \<notin> set ?p" "CHR ''_'' \<notin> set ?p"
    using assms by (auto simp: replace_all_def)
  then have "sql_like (?p @ ''%'') t = (map sql_lower (take (length ?p) t) = map sql_lower ?p)"
    by (rule sql_like_prefix)
  then show ?thesis by (simp add: ts_like_def replace_all_def)
qed


lemma cluster_endsong_rows:
  assumes "CHR ''%'' \<notin> set e" and "CHR ''_'' \<notin> set e"
  shows "cluster_endsong d ms (ts_like e) = map eid (cluster_rows d ms e)"
proof -
  have "\<And>r. (case ts r of None \<Rightarrow> False | Some t \<Rightarrow> sql_like (ts_like e) t) = begins_with_minute e r"
    by (simp add: begins_with_minute_def ts_like_prefix [OF assms] split: option.splits)
  then show ?thesis by (simp add: cluster_endsong_def cluster_rows_def)
qed

lemma zip_take_right: "zip xs ys = zip xs (take (length xs) ys)"
  by (induction xs ys rule: list_induct2') auto

lemma cluster_rows_facts:
  assumes "distinct (map eid (endsong d))"
  shows "set (cluster_rows d ms e) \<subseteq> set (endsong d)"
    and "distinct (map eid (cluster_rows d ms e))"
    and "sorted (map offline_timestamp (cluster_rows d ms e))"
    and "\<forall>r\<in>set (cluster_rows d ms e). platform r = Some ''ios''"
  using assms
  by (auto simp: cluster_rows_def distinct_map_sort_key distinct_map_filter)

lemma distinct_singleton:
  assumes "distinct xs" and "set xs = {x}"
  shows "xs = [x]"
proof (cases xs)
  case Nil
  then show ?thesis using assms(2) by simp
next
  case (Cons a ys)
  then have a: "a = x" and ys: "set ys \<subseteq> {x}" and na: "a \<notin> set ys"
    using assms by auto
  have "ys = []"
  proof (cases ys)
    case Nil
    then show ?thesis .
  next
    case (Cons b zs)
    then have "b \<in> set ys" by simp
    then have "b = x" using ys by blast
    then show ?thesis using na a \<open>b \<in> set ys\<close> by simp
  qed
  then show ?thesis using Cons a by simp
qed




section \<open>Entries with no matches\<close>

lemma none_step_eq:
  assumes "distinct (map eid (endsong d))" and "r \<in> set (endsong d)"
    and "count_modified d (eid r) = 0"
  shows "none_step e (d, missing, unsure) (eid r) =
     (let matches = duration_matches d (ms_played r) in
      if matches = [] then Inr (d, set_add (eid r) missing, unsure)
      else if length (remdups matches) > 1 then
        (let options = iter_options e matches;
             x = input_index e (ts r) options in
         if x = ''U'' \<or> x = ''u'' then Inr (d, missing, set_add (eid r) unsure)
         else
           (case py_int x of
              None \<Rightarrow> Inl ValueError
            | Some k \<Rightarrow>
                (case py_index options k of
                   None \<Rightarrow> Inl IndexError
                 | Some m \<Rightarrow>
                     Inr (d\<lparr>endsong_modified := endsong_modified d @ [set_names (snd m) (fst m) r]\<rparr>,
                          missing, unsure))))
      else Inr (d\<lparr>endsong_modified :=
                   endsong_modified d @ [set_names (snd (hd matches)) (fst (hd matches)) r]\<rparr>,
                missing, unsure))"
  using assms(3) filter_eid_single [OF assms(1,2)]
    insert_resolved_single [OF assms]
  by (simp add: Let_def hd_conv_nth split: option.splits)


declare none_step.simps [simp del]

lemma all_equal_hd: "set xs = {p} \<Longrightarrow> hd xs = p"
  by (cases xs) auto

lemma remdups_single: "set xs = {p} \<Longrightarrow> length (remdups xs) = 1"
  by (simp add: length_remdups_card_conv)

lemma py_index_nat: "k < length xs \<Longrightarrow> py_index xs (int k) = Some (xs ! k)"
  by (simp add: py_index_def)

lemmas fallback_ex_defs =
  store_ex_defs duration_matches_def env_ex_def py_int_def strip_def is_space_def is_digit_def
  digit_val_def

section \<open>What the resolvers add to the store\<close>

lemma for_each_preserves:
  assumes "for_each f xs s = Inr s'" and "P s"
    and "\<And>s x s'. x \<in> set xs \<Longrightarrow> P s \<Longrightarrow> f s x = Inr s' \<Longrightarrow> P s'"
  shows "P s'"
  using assms
proof (induction xs arbitrary: s)
  case Nil
  then show ?case by simp
next
  case (Cons x xs)
  from Cons.prems(1) obtain s1 where s1: "f s x = Inr s1" and rest: "for_each f xs s1 = Inr s'"
    by (auto split: sum.splits)
  have "P s1" using Cons.prems(3) [of x s s1] Cons.prems(2) s1 by simp
  moreover have "\<And>s x s'. x \<in> set xs \<Longrightarrow> P s \<Longrightarrow> f s x = Inr s' \<Longrightarrow> P s'"
    using Cons.prems(3) by (meson list.set_intros(2))
  ultimately show ?case using Cons.IH [OF rest] by blast
qed

lemma count_modified_mem: "(count_modified d i = 0) = (i \<notin> eid ` set (endsong_modified d))"
  by (auto simp: count_modified_def filter_empty_conv)

lemma count_modified_all: "(count_modified d i = 0) = (\<forall>y\<in>set (endsong_modified d). eid y \<noteq> i)"
  by (simp add: count_modified_def filter_empty_conv)

lemma ios_rows_extends: "endsong d' = endsong d \<Longrightarrow> ios_rows d' = ios_rows d"
  by (simp add: ios_rows_def)

lemma renamed_ios_cong: "endsong d' = endsong d \<Longrightarrow> renamed_ios d' x = renamed_ios d x"
  by (simp add: renamed_ios_def ios_rows_def)

lemma extends_refl: "extends d d"
  by (simp add: extends_def)

lemma extends_trans:
  assumes "extends d d1" and "extends d1 d2"
  shows "extends d d2"
proof -
  from assms(1) obtain n1 where h1: "history d1 = history d" and e1: "endsong d1 = endsong d"
    and m1: "endsong_modified d1 = endsong_modified d @ n1"
    and r1: "\<forall>x\<in>set n1. renamed_ios d x \<and> count_modified d (eid x) = 0"
    and d1: "distinct (map eid n1)"
    by (auto simp: extends_def)
  from assms(2) obtain n2 where h2: "history d2 = history d1" and e2: "endsong d2 = endsong d1"
    and m2: "endsong_modified d2 = endsong_modified d1 @ n2"
    and r2: "\<forall>x\<in>set n2. renamed_ios d1 x \<and> count_modified d1 (eid x) = 0"
    and d2: "distinct (map eid n2)"
    by (auto simp: extends_def)
  have r2': "\<forall>x\<in>set n2. renamed_ios d x \<and> count_modified d (eid x) = 0
      \<and> (\<forall>y\<in>set n1. eid y \<noteq> eid x)"
  proof
    fix x assume x: "x \<in> set n2"
    then have a: "renamed_ios d x" using r2 renamed_ios_cong [OF e1] by simp
    have "\<forall>y\<in>set (endsong_modified d @ n1). eid y \<noteq> eid x"
      using r2 x m1 by (simp add: count_modified_all)
    then have "count_modified d (eid x) = 0" and "\<forall>y\<in>set n1. eid y \<noteq> eid x"
      by (simp_all add: count_modified_all)
    then show "renamed_ios d x \<and> count_modified d (eid x) = 0 \<and> (\<forall>y\<in>set n1. eid y \<noteq> eid x)"
      using a by simp
  qed
  have "endsong_modified d2 = endsong_modified d @ (n1 @ n2)" using m1 m2 by simp
  moreover have "\<forall>x\<in>set (n1 @ n2). renamed_ios d x \<and> count_modified d (eid x) = 0"
    using r1 r2' by auto
  moreover have "eid ` set n1 \<inter> eid ` set n2 = {}"
    using r2' by blast
  then have "distinct (map eid (n1 @ n2))"
    using d1 d2 by simp
  ultimately show ?thesis
    unfolding extends_def using h1 h2 e1 e2 by metis
qed

lemma extends_commit:
  assumes "distinct (map eid (endsong d))" and "r \<in> set (ios_rows d)"
  shows "extends d (if count_modified d (eid r) = 0 then insert_resolved d (eid r) t a else d)"
proof (cases "count_modified d (eid r) = 0")
  case True
  have rin: "r \<in> set (endsong d)" using assms(2) by (simp add: ios_rows_def)
  have "renamed_ios d (set_names t a r)" using assms(2) by (auto simp: renamed_ios_def)
  then show ?thesis
    using True insert_resolved_single [OF assms(1) rin True, of t a]
    by (simp add: extends_def)
next
  case False
  then show ?thesis by (simp add: extends_refl)
qed

lemma ios_row_of_id:
  assumes "distinct (map eid (endsong d))" and "i \<in> eid ` set (ios_rows d)"
  obtains r where "r \<in> set (ios_rows d)" and "eid r = i"
    and "filter (\<lambda>q. eid q = i) (endsong d) = [r]"
proof -
  from assms(2) obtain r where r: "r \<in> set (ios_rows d)" "eid r = i" by auto
  then have "r \<in> set (endsong d)" by (simp add: ios_rows_def)
  then have "filter (\<lambda>q. eid q = eid r) (endsong d) = [r]"
    using assms(1) by (intro filter_eid_single)
  then show ?thesis using r that by simp
qed

lemma extends_initial_step:
  assumes "distinct (map eid (endsong d))" and "row \<in> set (ios_rows d)"
    and "initial_step (d, m, n) row = Inr (d', m', n')"
  shows "extends d d'"
proof (cases "ts row")
  case None
  then show ?thesis using assms(3) by (simp add: initial_step_None)
next
  case (Some t)
  show ?thesis
    using assms(3) extends_commit [OF assms(1,2)] extends_refl [of d]
    unfolding initial_step_eq [OF Some]
    by (auto split: if_splits)
qed

lemma extends_resolve_pair:
  assumes "distinct (map eid (endsong d))" and "i \<in> eid ` set (ios_rows d)"
  shows "extends d (resolve_pair d (h, i))"
proof -
  from ios_row_of_id [OF assms] obtain r where "r \<in> set (ios_rows d)" "eid r = i" by blast
  then show ?thesis
    using extends_commit [OF assms(1), of r] by (auto simp: resolve_pair_def)
qed

lemma extends_resolve_pairs:
  assumes "distinct (map eid (endsong d))" and "snd ` set ps \<subseteq> eid ` set (ios_rows d)"
  shows "extends d (foldl resolve_pair d ps)"
  using assms
proof (induction ps arbitrary: d)
  case Nil
  then show ?case by (simp add: extends_refl)
next
  case (Cons p ps)
  obtain h i where p: "p = (h, i)" by (cases p)
  let ?d1 = "resolve_pair d (h, i)"
  have 1: "extends d ?d1"
    using Cons.prems p by (intro extends_resolve_pair) auto
  then have e: "endsong ?d1 = endsong d" by (simp add: extends_def)
  have "extends ?d1 (foldl resolve_pair ?d1 ps)"
    using Cons.prems e by (intro Cons.IH) (auto simp: ios_rows_extends [OF e])
  then show ?case using 1 p extends_trans by simp
qed

lemma cluster_endsong_ios: "set (cluster_endsong d ms pat) \<subseteq> eid ` set (ios_rows d)"
  by (auto simp: cluster_endsong_def ios_rows_def)

lemma quote_free_cong: "history d' = history d \<Longrightarrow> quote_free d' = quote_free d"
  by (simp add: quote_free_def)

lemma multiple_step_plain:
  assumes "quote_free d" and "multiple_step v d entry = Inr d'"
  obtains h0 hs t ms where "cluster_history d entry = h0 # hs" and "endTime h0 = Some t"
    and "msPlayed h0 = Some ms" and "CHR 0x27 \<notin> set t"
    and "d' = foldl resolve_pair d (zip (h0 # hs) (cluster_endsong d ms (ts_like t)))"
proof -
  from assms(2) obtain h0 hs t ms where c: "cluster_history d entry = h0 # hs"
    "endTime h0 = Some t" "msPlayed h0 = Some ms"
    by (auto simp: multiple_step_def split: list.splits option.splits)
  have "h0 \<in> set (cluster_history d entry)" using c(1) by simp
  then have "h0 \<in> set (history d)" by (simp add: cluster_history_def)
  then have q: "CHR 0x27 \<notin> set t" using assms(1) c(2) by (simp add: quote_free_def)
  then have "d' = foldl resolve_pair d (zip (h0 # hs) (cluster_endsong d ms (ts_like t)))"
    using assms(2) c by (simp add: multiple_step_def)
  then show ?thesis using c q that by blast
qed

lemma extends_multiple_step:
  assumes "distinct (map eid (endsong d))" and "quote_free d"
    and "multiple_step v d entry = Inr d'"
  shows "extends d d'"
proof -
  from assms(2,3) obtain h0 hs t ms where
    d': "d' = foldl resolve_pair d (zip (h0 # hs) (cluster_endsong d ms (ts_like t)))"
    by (rule multiple_step_plain)
  have "snd ` set (zip (h0 # hs) (cluster_endsong d ms (ts_like t))) \<subseteq> eid ` set (ios_rows d)"
    using cluster_endsong_ios [of d ms "ts_like t"] by (auto dest: set_zip_rightD)
  then show ?thesis unfolding d' using assms(1) extends_resolve_pairs by simp
qed

text \<open>Without that hypothesis the loop still only adds rows.\<close>

lemma appends_refl: "appends d d"
  by (simp add: appends_def)

lemma appends_trans: "appends d d1 \<Longrightarrow> appends d1 d2 \<Longrightarrow> appends d d2"
  by (auto simp: appends_def)

lemma extends_appends: "extends d d' \<Longrightarrow> appends d d'"
  by (auto simp: extends_def appends_def)

lemma appends_count_mono: "appends d d' \<Longrightarrow> count_modified d i \<le> count_modified d' i"
  by (auto simp: appends_def count_modified_def)

lemma appends_resolve_pair: "appends d (resolve_pair d p)"
proof (cases p)
  case (Pair h i)
  show ?thesis
  proof (cases "count_modified d i = 0")
    case True
    then have "\<forall>q\<in>set (endsong_modified d). eid q \<noteq> i" by (simp add: count_modified_all)
    then have "map (\<lambda>r. if eid r = i then set_names (trackName h) (artistName h) r else r)
                 (endsong_modified d) = endsong_modified d"
      by (rule map_names_other)
    then show ?thesis using True Pair by (simp add: resolve_pair_def insert_resolved_def appends_def)
  next
    case False
    then show ?thesis using Pair by (simp add: resolve_pair_def appends_refl)
  qed
qed

lemma appends_resolve_pairs: "appends d (foldl resolve_pair d ps)"
proof (induction ps arbitrary: d)
  case Nil
  then show ?case by (simp add: appends_refl)
next
  case (Cons p ps)
  show ?case using appends_resolve_pair [of d p] Cons [of "resolve_pair d p"] appends_trans by simp
qed

lemma appends_multiple_step:
  assumes "multiple_step v d entry = Inr d'"
  shows "appends d d'"
proof -
  from assms obtain ps where "d' = foldl resolve_pair d ps"
    by (auto simp: multiple_step_def split: list.splits option.splits if_splits sum.splits)
  then show ?thesis by (simp add: appends_resolve_pairs)
qed

lemma extends_none_step:
  assumes "distinct (map eid (endsong d))" and "entry \<in> eid ` set (ios_rows d)"
    and "none_step e (d, m, u) entry = Inr (d', m', u')"
  shows "extends d d'"
proof -
  from ios_row_of_id [OF assms(1,2)] obtain r where r: "r \<in> set (ios_rows d)" "eid r = entry"
    by blast
  then have rin: "r \<in> set (endsong d)" by (simp add: ios_rows_def)
  show ?thesis
  proof (cases "count_modified d entry = 0")
    case True
    then have c: "count_modified d (eid r) = 0" using r by simp
    have "\<And>t a. extends d (d\<lparr>endsong_modified := endsong_modified d @ [set_names t a r]\<rparr>)"
      using extends_commit [OF assms(1) r(1)] c insert_resolved_single [OF assms(1) rin c]
      by simp
    then show ?thesis
      using assms(3) extends_refl [of d]
      unfolding r(2) [symmetric] none_step_eq [OF assms(1) rin c]
      by (auto simp: Let_def split: if_splits option.splits)
  next
    case False
    then show ?thesis using assms(3) by (simp add: none_step.simps extends_refl)
  qed
qed


lemma for_each_append:
  "for_each f (xs @ ys) s = (case for_each f xs s of Inl e \<Rightarrow> Inl e | Inr s1 \<Rightarrow> for_each f ys s1)"
  by (induction xs arbitrary: s) (auto split: sum.splits)

lemma for_each_prefixes:
  assumes "for_each f xs s = Inr s'" and "P [] s"
    and "\<And>pre x post s s1. xs = pre @ x # post \<Longrightarrow> P pre s \<Longrightarrow> f s x = Inr s1 \<Longrightarrow> P (pre @ [x]) s1"
  shows "P xs s'"
proof -
  have "\<And>pre s. xs = pre @ post \<Longrightarrow> P pre s \<Longrightarrow> for_each f post s = Inr s' \<Longrightarrow> P xs s'" for post
  proof (induction post)
    case Nil
    then show ?case by simp
  next
    case (Cons x post)
    from Cons.prems(3) obtain s1 where s1: "f s x = Inr s1" and rest: "for_each f post s1 = Inr s'"
      by (auto split: sum.splits)
    have "P (pre @ [x]) s1" using assms(3) [OF Cons.prems(1,2) s1] .
    moreover have "xs = (pre @ [x]) @ post" using Cons.prems(1) by simp
    ultimately show ?case using Cons.IH rest by blast
  qed
  from this [of "[]" xs s] show ?thesis using assms(1,2) by simp
qed

lemma for_each_all_succeed:
  assumes "for_each f xs s = Inr s'" and "x \<in> set xs"
  shows "\<exists>s1 s2. f s1 x = Inr s2"
  using assms
proof (induction xs arbitrary: s)
  case Nil
  then show ?case by simp
next
  case (Cons y xs)
  from Cons.prems(1) obtain s1 where s1: "f s y = Inr s1" and rest: "for_each f xs s1 = Inr s'"
    by (auto split: sum.splits)
  show ?case
  proof (cases "x = y")
    case True
    then show ?thesis using s1 by blast
  next
    case False
    then show ?thesis using Cons.IH [OF rest] Cons.prems(2) by simp
  qed
qed

lemma initial_pass_ts:
  assumes "initial_pass d = Inr x"
  shows "\<forall>r\<in>set (ios_rows d). ts r \<noteq> None"
proof
  fix r assume r: "r \<in> set (ios_rows d)"
  obtain s1 s2 where "initial_step s1 r = Inr s2"
    using for_each_all_succeed [OF assms [unfolded initial_pass_def] r] by blast
  then show "ts r \<noteq> None"
    using initial_step_None [of r] by (cases s1; cases "ts r") auto
qed

lemma ios_rows_facts:
  assumes "distinct (map eid (endsong d))"
  shows "set (ios_rows d) \<subseteq> set (endsong d)" and "distinct (map eid (ios_rows d))"
  using assms by (auto simp: ios_rows_def distinct_map_filter)

lemma initial_pass_result:
  assumes "distinct (map eid (endsong d))" and "initial_pass d = Inr (d1, multiple, none)"
  shows "d1 = d\<lparr>endsong_modified := endsong_modified d @ initial_rows d (ios_rows d)\<rparr>"
    and "multiple = add_all [] (map (cluster_key d) (filter (\<lambda>r. 1 < length (matches_of d r)) (ios_rows d)))"
    and "none = add_all [] (map eid (filter (\<lambda>r. matches_of d r = []) (ios_rows d)))"
proof -
  have "initial_pass d
      = Inr (d\<lparr>endsong_modified := endsong_modified d @ initial_rows d (ios_rows d)\<rparr>,
             add_all [] (map (cluster_key d) (filter (\<lambda>r. 1 < length (matches_of d r)) (ios_rows d))),
             add_all [] (map eid (filter (\<lambda>r. matches_of d r = []) (ios_rows d))))"
    unfolding initial_pass_def
    using assms(1) ios_rows_facts [OF assms(1)] initial_pass_ts [OF assms(2)]
    by (rule initial_loop)
  then show "d1 = d\<lparr>endsong_modified := endsong_modified d @ initial_rows d (ios_rows d)\<rparr>"
    and "multiple = add_all [] (map (cluster_key d) (filter (\<lambda>r. 1 < length (matches_of d r)) (ios_rows d)))"
    and "none = add_all [] (map eid (filter (\<lambda>r. matches_of d r = []) (ios_rows d)))"
    using assms(2) by simp_all
qed

lemma extends_initial_pass:
  assumes "distinct (map eid (endsong d))" and "initial_pass d = Inr (d1, multiple, none)"
  shows "extends d d1"
proof -
  have "case (d1, multiple, none) of (d', m, n) \<Rightarrow> extends d d'"
    using assms(2) unfolding initial_pass_def
  proof (rule for_each_preserves)
    show "case (d, [], []) of (d', m, n) \<Rightarrow> extends d d'" by (simp add: extends_refl)
  next
    fix s x s'
    assume x: "x \<in> set (ios_rows d)" and P: "case s of (d', m, n) \<Rightarrow> extends d d'"
      and step: "initial_step s x = Inr s'"
    obtain d' m n where s: "s = (d', m, n)" by (cases s)
    obtain d'' m' n' where s': "s' = (d'', m', n')" by (cases s')
    have e: "extends d d'" using P s by simp
    then have en: "endsong d' = endsong d" by (simp add: extends_def)
    have "extends d' d''"
      using step assms(1) x unfolding s s'
      by (intro extends_initial_step [of d' x m n d'' m' n']) (simp_all add: en ios_rows_extends [OF en])
    then show "case s' of (d', m, n) \<Rightarrow> extends d d'"
      using e s' extends_trans by auto
  qed
  then show ?thesis by simp
qed

lemma extends_multiple_pass:
  assumes "distinct (map eid (endsong d))" and "quote_free d"
    and "multiple_pass e d multiple = Inr d2"
  shows "extends d d2"
  using assms(3) unfolding multiple_pass_def
proof (rule for_each_preserves)
  show "extends d d" by (rule extends_refl)
next
  fix s x s'
  assume P: "extends d s" and step: "multiple_step e s x = Inr s'"
  have en: "endsong s = endsong d" "history s = history d" using P by (simp_all add: extends_def)
  have "quote_free s" using assms(2) quote_free_cong [OF en(2)] by simp
  then have "extends s s'"
    using step assms(1) en by (intro extends_multiple_step [of s e x]) simp_all
  then show "extends d s'" using P extends_trans by blast
qed

lemma appends_multiple_pass:
  assumes "multiple_pass e d multiple = Inr d2"
  shows "appends d d2"
  using assms unfolding multiple_pass_def
proof (rule for_each_preserves)
  show "appends d d" by (rule appends_refl)
next
  fix s x s'
  assume "appends d s" and "multiple_step e s x = Inr s'"
  then show "appends d s'" using appends_multiple_step appends_trans by blast
qed

lemma none_step_cases:
  assumes "distinct (map eid (endsong d))" and "entry \<in> eid ` set (ios_rows d)"
    and "none_step e (d, m, u) entry = Inr (d', m', u')"
  shows "(count_modified d entry \<noteq> 0 \<and> d' = d \<and> m' = m \<and> u' = u)
       \<or> (count_modified d entry = 0
           \<and> ((d' = d \<and> m' = set_add entry m \<and> u' = u)
              \<or> (d' = d \<and> m' = m \<and> u' = set_add entry u)
              \<or> (\<exists>x. eid x = entry \<and> d' = d\<lparr>endsong_modified := endsong_modified d @ [x]\<rparr>
                     \<and> m' = m \<and> u' = u)))"
proof -
  from ios_row_of_id [OF assms(1,2)] obtain r where r: "r \<in> set (ios_rows d)" "eid r = entry"
    by blast
  then have rin: "r \<in> set (endsong d)" by (simp add: ios_rows_def)
  show ?thesis
  proof (cases "count_modified d entry = 0")
    case True
    then have c: "count_modified d (eid r) = 0" using r by simp
    let ?M = "duration_matches d (ms_played r)"
    let ?ins = "\<lambda>p. d\<lparr>endsong_modified := endsong_modified d @ [set_names (snd p) (fst p) r]\<rparr>"
    have ins: "\<And>p. \<exists>x. eid x = entry \<and> ?ins p = d\<lparr>endsong_modified := endsong_modified d @ [x]\<rparr>"
      using r(2) by (intro exI [of _ "set_names _ _ r"]) simp
    note eq = none_step_eq [OF assms(1) rin c, of e m u, unfolded r(2)]
    have res: "(d' = d \<and> m' = set_add entry m \<and> u' = u)
              \<or> (d' = d \<and> m' = m \<and> u' = set_add entry u)
              \<or> (\<exists>p. d' = ?ins p \<and> m' = m \<and> u' = u)"
      using assms(3) unfolding eq
      by (auto simp: Let_def split: if_splits option.splits)
    then show ?thesis using True ins by metis
  next
    case False
    then show ?thesis using assms(3) by (simp add: none_step.simps)
  qed
qed


lemma none_inv_step:
  assumes pk: "distinct (map eid (endsong d2))" and x: "x \<in> eid ` set (ios_rows d2)"
    and fresh: "x \<notin> set pre" and inv: "none_inv d2 pre (d, m, u)"
    and step: "none_step e (d, m, u) x = Inr (d', m', u')"
  shows "none_inv d2 (pre @ [x]) (d', m', u')"
proof -
  have ext: "extends d2 d" and sub: "set m \<union> set u \<subseteq> set pre"
    and zero: "\<forall>i\<in>set m \<union> set u. count_modified d i = 0"
    and dis: "set m \<inter> set u = {}"
    and cov: "\<forall>i\<in>set pre. 0 < count_modified d i \<or> i \<in> set m \<or> i \<in> set u"
    and rest: "\<forall>i. i \<notin> set pre \<longrightarrow> count_modified d i = count_modified d2 i"
    using inv by (simp_all add: none_inv_def)
  have en: "endsong d = endsong d2" using ext by (simp add: extends_def)
  have pk': "distinct (map eid (endsong d))" using pk en by simp
  have x': "x \<in> eid ` set (ios_rows d)" using x ios_rows_extends [OF en] by simp
  have ext': "extends d2 d'"
    using extends_none_step [OF pk' x' step] ext extends_trans by blast
  have xm: "x \<notin> set m" and xu: "x \<notin> set u" using sub fresh by auto
  from none_step_cases [OF pk' x' step]
  consider (skip) "count_modified d x \<noteq> 0" "d' = d" "m' = m" "u' = u"
    | (miss) "count_modified d x = 0" "d' = d" "m' = set_add x m" "u' = u"
    | (unsure) "count_modified d x = 0" "d' = d" "m' = m" "u' = set_add x u"
    | (ins) y where "count_modified d x = 0" "eid y = x"
        "d' = d\<lparr>endsong_modified := endsong_modified d @ [y]\<rparr>" "m' = m" "u' = u"
    by (elim disjE conjE exE) fast+
  then show ?thesis
  proof cases
    case skip
    then show ?thesis
      using ext sub zero dis cov rest unfolding none_inv_def by auto
  next
    case miss
    then show ?thesis
      using ext sub zero dis cov rest xu unfolding none_inv_def by auto
  next
    case unsure
    then show ?thesis
      using ext sub zero dis cov rest xm unfolding none_inv_def by auto
  next
    case ins
    have cnt: "\<And>i. count_modified d' i = count_modified d i + (if i = x then 1 else 0)"
      using ins(2,3) by (auto simp: count_modified_append)
    have "\<forall>i\<in>set m \<union> set u. count_modified d' i = 0"
      using zero xm xu by (auto simp: cnt)
    moreover have "\<forall>i\<in>set (pre @ [x]). 0 < count_modified d' i \<or> i \<in> set m \<or> i \<in> set u"
      using cov by (auto simp: cnt)
    moreover have "\<forall>i. i \<notin> set (pre @ [x]) \<longrightarrow> count_modified d' i = count_modified d2 i"
      using rest by (auto simp: cnt)
    moreover have "set m \<union> set u \<subseteq> set (pre @ [x])" using sub by auto
    ultimately show ?thesis
      using ext' dis ins(4,5) unfolding none_inv_def by simp
  qed
qed

lemma none_loop_inv:
  assumes pk: "distinct (map eid (endsong d2))" and "set xs \<subseteq> eid ` set (ios_rows d2)"
    and "distinct xs" and run: "for_each (none_step e) xs (d2, [], []) = Inr s'"
  shows "none_inv d2 xs s'"
  using run
proof (rule for_each_prefixes)
  show "none_inv d2 [] (d2, [], [])" by (simp add: none_inv_def extends_refl)
next
  fix pre x post s s1
  assume xs: "xs = pre @ x # post" and inv: "none_inv d2 pre s"
    and step: "none_step e s x = Inr s1"
  obtain d m u where s: "s = (d, m, u)" by (cases s)
  obtain d' m' u' where s1: "s1 = (d', m', u')" by (cases s1)
  have a: "x \<in> eid ` set (ios_rows d2)" using assms(2) xs by auto
  have b: "x \<notin> set pre" using assms(3) xs by auto
  show "none_inv d2 (pre @ [x]) s1"
    using none_inv_step [OF pk a b inv [unfolded s] step [unfolded s s1]] s1 by simp
qed

text \<open>The resolver stages on the example store.\<close>

lemma ex_initial_pass:
  "initial_pass store_ex = Inr (store_ex\<lparr>endsong_modified := take 2 ex_resolved\<rparr>, [[1, 2]], [14, 15])"
  by (simp add: initial_pass_def initial_step.simps store_ex_defs insert_resolved_def
      set_add_def ex_resolved_def)

lemma ex_multiple_pass:
  "multiple_pass (env_ex line) (store_ex\<lparr>endsong_modified := take 2 ex_resolved\<rparr>) [[1, 2]]
   = Inr (store_ex\<lparr>endsong_modified := take 4 ex_resolved\<rparr>)"
  by (simp add: multiple_pass_def multiple_step_def cluster_history_def cluster_endsong_def
      ts_like_def replace_all_def sql_lower_def resolve_pair_def env_ex_def
      store_ex_defs insert_resolved_def ex_resolved_def)

lemma ex_none_pass:
  "none_pass (env_ex ''1'') (store_ex\<lparr>endsong_modified := take 4 ex_resolved\<rparr>) [14, 15]
   = Inr (store_ex\<lparr>endsong_modified := ex_resolved\<rparr>, [15], [])"
  by (simp add: none_pass_def none_step.simps fallback_ex_defs py_index_def Let_def
      insert_resolved_def set_add_def ex_resolved_def)

lemma ex_resolvers:
  "resolvers (env_ex ''1'') store_ex = Inr (store_ex\<lparr>endsong_modified := ex_resolved\<rparr>, [15], [])"
  by (simp add: resolvers_def ex_initial_pass ex_multiple_pass ex_none_pass)

section \<open>The loop over the entries without a match\<close>

lemma for_each_split:
  assumes "for_each f (pre @ x # post) s = Inr s'"
  obtains s1 s2 where "for_each f pre s = Inr s1" and "f s1 x = Inr s2"
    and "for_each f post s2 = Inr s'"
  using assms by (auto simp: for_each_append split: sum.splits)

lemma none_step_frame:
  assumes "none_step e (d, m, u) entry = Inr (d', m', u')"
  shows "history d' = history d \<and> endsong d' = endsong d"
  using assms
  by (auto simp: none_step.simps Let_def split: if_splits list.splits option.splits)

lemma none_step_sets:
  assumes "distinct (map eid (endsong d))" and "entry \<in> eid ` set (ios_rows d)"
    and "none_step e (d, m, u) entry = Inr (d', m', u')"
  shows "set m \<subseteq> set m'" and "set u \<subseteq> set u'"
  using none_step_cases [OF assms] by (auto simp: set_add_def)

lemma none_loop_mono:
  assumes pk: "distinct (map eid (endsong d))" and xs: "set xs \<subseteq> eid ` set (ios_rows d)"
    and run: "for_each (none_step e) xs (d, m, u) = Inr (d', m', u')"
  shows "extends d d'" and "set m \<subseteq> set m'" and "set u \<subseteq> set u'"
proof -
  let ?P = "\<lambda>s. case s of (d1, m1, u1) \<Rightarrow> extends d d1 \<and> set m \<subseteq> set m1 \<and> set u \<subseteq> set u1"
  have "?P (d', m', u')"
    using run
  proof (rule for_each_preserves)
    show "?P (d, m, u)" by (simp add: extends_refl)
  next
    fix s x s'
    assume x: "x \<in> set xs" and P: "?P s" and step: "none_step e s x = Inr s'"
    obtain d1 m1 u1 where s: "s = (d1, m1, u1)" by (cases s)
    obtain d2 m2 u2 where s': "s' = (d2, m2, u2)" by (cases s')
    have e1: "extends d d1" and mu: "set m \<subseteq> set m1" "set u \<subseteq> set u1" using P s by simp_all
    have en: "endsong d1 = endsong d" using e1 by (simp add: extends_def)
    have pk1: "distinct (map eid (endsong d1))" using pk en by simp
    have xi: "x \<in> eid ` set (ios_rows d1)" using x xs by (auto simp: ios_rows_extends [OF en])
    have st: "none_step e (d1, m1, u1) x = Inr (d2, m2, u2)" using step s s' by simp
    have "extends d1 d2" using pk1 xi st by (rule extends_none_step)
    then have "extends d d2" using e1 extends_trans by blast
    moreover have "set m1 \<subseteq> set m2" "set u1 \<subseteq> set u2" using none_step_sets [OF pk1 xi st] by simp_all
    ultimately show "?P s'" using mu s' by auto
  qed
  then show "extends d d'" and "set m \<subseteq> set m'" and "set u \<subseteq> set u'" by simp_all
qed

text \<open>
  The step that the no-match loop takes for a member of its input that had no
  reconciled row when the loop began: the store of that step has none either, and what
  the step adds is there when the loop ends.
\<close>

lemma none_pass_entry:
  assumes pk: "distinct (map eid (endsong d2))" and it: "iterates_sets e"
    and sub: "set none \<subseteq> eid ` set (ios_rows d2)" and dn: "distinct none"
    and run: "none_pass e d2 none = Inr (d3, missing, unsure)"
    and i: "i \<in> set none"
  obtains d m u d' m' u' where "none_step e (d, m, u) i = Inr (d', m', u')"
    and "history d = history d2" and "endsong d = endsong d2"
    and "count_modified d i = count_modified d2 i"
    and "set (endsong_modified d') \<subseteq> set (endsong_modified d3)"
    and "set m' \<subseteq> set missing" and "set u' \<subseteq> set unsure"
proof -
  let ?xs = "iter_none e none"
  have itn: "distinct ?xs" "set ?xs = set none" using it dn by (simp_all add: iterates_sets_def)
  have subx: "set ?xs \<subseteq> eid ` set (ios_rows d2)" using sub itn(2) by simp
  from i itn(2) obtain pre post where xs: "?xs = pre @ i # post"
    by (metis in_set_conv_decomp)
  have run': "for_each (none_step e) (pre @ i # post) (d2, [], []) = Inr (d3, missing, unsure)"
    using run by (simp add: none_pass_def xs)
  from run' obtain s1 s2 where 1: "for_each (none_step e) pre (d2, [], []) = Inr s1"
    and 2: "none_step e s1 i = Inr s2"
    and 3: "for_each (none_step e) post s2 = Inr (d3, missing, unsure)"
    by (rule for_each_split)
  obtain d m u where s1: "s1 = (d, m, u)" by (cases s1)
  obtain d' m' u' where s2: "s2 = (d', m', u')" by (cases s2)
  have pre: "set pre \<subseteq> eid ` set (ios_rows d2)" "distinct pre" "i \<notin> set pre"
    and post: "set post \<subseteq> eid ` set (ios_rows d2)"
    using subx itn(1) unfolding xs by auto
  have inv: "none_inv d2 pre (d, m, u)"
    using none_loop_inv [OF pk pre(1,2) 1] s1 by simp
  then have e1: "extends d2 d" and c: "count_modified d i = count_modified d2 i"
    using pre(3) by (simp_all add: none_inv_def)
  have f1: "history d = history d2" "endsong d = endsong d2" using e1 by (simp_all add: extends_def)
  have st: "none_step e (d, m, u) i = Inr (d', m', u')" using 2 s1 s2 by simp
  have f2: "endsong d' = endsong d2" using none_step_frame [OF st] f1 by simp
  have pk': "distinct (map eid (endsong d'))" using pk f2 by simp
  have post': "set post \<subseteq> eid ` set (ios_rows d')" using post by (simp add: ios_rows_extends [OF f2])
  note mono = none_loop_mono [OF pk' post' 3 [unfolded s2]]
  have "set (endsong_modified d') \<subseteq> set (endsong_modified d3)"
    using mono(1) by (auto simp: extends_def)
  then show ?thesis using that st f1 c mono(2,3) by blast
qed

lemma none_step_row:
  assumes "distinct (map eid (endsong d))" and "r \<in> set (endsong d)"
    and "count_modified d (eid r) = 0" and "iterates_sets e"
    and "cands = duration_matches d (ms_played r)"
    and "options = iter_options e cands"
    and "x = input_index e (ts r) options"
  shows "distinct options \<and> set options = set cands
    \<and> (cands = [] \<longrightarrow>
         none_step e (d, missing, unsure) (eid r) = Inr (d, set_add (eid r) missing, unsure))
    \<and> (\<forall>p. set cands = {p} \<longrightarrow>
         none_step e (d, missing, unsure) (eid r)
         = Inr (d\<lparr>endsong_modified := endsong_modified d @ [set_names (snd p) (fst p) r]\<rparr>,
                missing, unsure))
    \<and> (1 < card (set cands) \<and> (x = ''u'' \<or> x = ''U'') \<longrightarrow>
         none_step e (d, missing, unsure) (eid r) = Inr (d, missing, set_add (eid r) unsure))
    \<and> (\<forall>k. 1 < card (set cands) \<and> x \<noteq> ''u'' \<and> x \<noteq> ''U''
             \<and> py_int x = Some (int k) \<and> k < length options \<longrightarrow>
         none_step e (d, missing, unsure) (eid r)
         = Inr (d\<lparr>endsong_modified :=
                   endsong_modified d
                   @ [set_names (snd (options ! k)) (fst (options ! k)) r]\<rparr>,
                missing, unsure))"
proof -
  note eq = none_step_eq [OF assms(1-3), of e missing unsure]
  have opt: "distinct options \<and> set options = set cands"
    using assms(4,6) by (simp add: iterates_sets_def)
  have card: "card (set cands) = length (remdups cands)"
    by (simp add: length_remdups_card_conv)
  have a: "cands = [] \<longrightarrow>
         none_step e (d, missing, unsure) (eid r) = Inr (d, set_add (eid r) missing, unsure)"
    using eq assms(5) by simp
  have b: "\<forall>p. set cands = {p} \<longrightarrow>
         none_step e (d, missing, unsure) (eid r)
         = Inr (d\<lparr>endsong_modified := endsong_modified d @ [set_names (snd p) (fst p) r]\<rparr>,
                missing, unsure)"
  proof (intro allI impI)
    fix p assume p: "set cands = {p}"
    then have "cands \<noteq> []" by auto
    then show "none_step e (d, missing, unsure) (eid r)
         = Inr (d\<lparr>endsong_modified := endsong_modified d @ [set_names (snd p) (fst p) r]\<rparr>,
                missing, unsure)"
      using eq assms(5) all_equal_hd [OF p] remdups_single [OF p] by (simp add: Let_def)
  qed
  have c: "1 < card (set cands) \<and> (x = ''u'' \<or> x = ''U'') \<longrightarrow>
         none_step e (d, missing, unsure) (eid r) = Inr (d, missing, set_add (eid r) unsure)"
  proof
    assume h: "1 < card (set cands) \<and> (x = ''u'' \<or> x = ''U'')"
    then have "cands \<noteq> []" by auto
    then show "none_step e (d, missing, unsure) (eid r) = Inr (d, missing, set_add (eid r) unsure)"
      using eq h assms(5-7) card by (auto simp: Let_def)
  qed
  have dd: "\<forall>k. 1 < card (set cands) \<and> x \<noteq> ''u'' \<and> x \<noteq> ''U''
             \<and> py_int x = Some (int k) \<and> k < length options \<longrightarrow>
         none_step e (d, missing, unsure) (eid r)
         = Inr (d\<lparr>endsong_modified :=
                   endsong_modified d
                   @ [set_names (snd (options ! k)) (fst (options ! k)) r]\<rparr>,
                missing, unsure)"
  proof (intro allI impI)
    fix k
    assume h: "1 < card (set cands) \<and> x \<noteq> ''u'' \<and> x \<noteq> ''U''
             \<and> py_int x = Some (int k) \<and> k < length options"
    then have ne: "cands \<noteq> []" by auto
    have idx: "py_index options (int k) = Some (options ! k)"
      using h by (simp add: py_index_nat)
    show "none_step e (d, missing, unsure) (eid r)
         = Inr (d\<lparr>endsong_modified :=
                   endsong_modified d
                   @ [set_names (snd (options ! k)) (fst (options ! k)) r]\<rparr>,
                missing, unsure)"
      using eq h ne idx assms(5-7) card by (simp add: Let_def)
  qed
  show ?thesis using opt a b c dd by blast
qed

text \<open>
  Claim C4, as amended. The Duration-Fallback Resolver is the loop over the set
  \<open>none\<close>, which the initial pass filled with the ids of the ios rows whose exact-key
  query had no result; it visits no other row. Let the loop return, and let \<open>r\<close> be a
  primary row in \<open>none\<close> that had no reconciled row when the loop began, \<open>cands\<close> the
  (artist, track) pairs of all secondary rows of the duration of \<open>r\<close>, and \<open>options\<close>
  the list shown at the prompt, which holds each distinct pair of \<open>cands\<close> once. With
  no candidate \<open>r\<close> is in the Missing set and has no reconciled row. With exactly one
  distinct pair \<open>r\<close> has one reconciled row, its copy with the track and the artist of
  that pair. With two or more the operator is asked, with the timestamp of \<open>r\<close> and
  \<open>options\<close>: after the answer u or U the row is in the Unsure set and has no
  reconciled row; after an index \<open>k\<close> below the number of options it has one
  reconciled row, its copy with the track and the artist of \<open>options ! k\<close>. A resolved
  row is in neither set. The two sets hold members of \<open>none\<close> only, and an id that is
  not in \<open>none\<close>, or that had a reconciled row when the loop began, has after the loop
  the reconciled rows it had before.
\<close>

theorem duration_fallback:
  assumes "distinct (map eid (endsong d2))" and "iterates_sets e"
    and "set none \<subseteq> eid ` set (ios_rows d2)" and "distinct none"
    and "none_pass e d2 none = Inr (d3, missing, unsure)"
    and "r \<in> set (endsong d2)" and "eid r \<in> set none" and "count_modified d2 (eid r) = 0"
    and "cands = duration_matches d2 (ms_played r)"
    and "options = iter_options e cands"
    and "x = input_index e (ts r) options"
  shows "distinct options \<and> set options = set cands
    \<and> (cands = [] \<longrightarrow>
         eid r \<in> set missing \<and> eid r \<notin> set unsure \<and> count_modified d3 (eid r) = 0)
    \<and> (\<forall>p. set cands = {p} \<longrightarrow>
         filter (\<lambda>q. eid q = eid r) (endsong_modified d3)
           = [r\<lparr>master_metadata_track_name := snd p, master_metadata_album_artist_name := fst p\<rparr>]
         \<and> eid r \<notin> set missing \<and> eid r \<notin> set unsure)
    \<and> (1 < card (set cands) \<and> (x = ''u'' \<or> x = ''U'') \<longrightarrow>
         eid r \<in> set unsure \<and> eid r \<notin> set missing \<and> count_modified d3 (eid r) = 0)
    \<and> (\<forall>k. 1 < card (set cands) \<and> x \<noteq> ''u'' \<and> x \<noteq> ''U''
             \<and> py_int x = Some (int k) \<and> k < length options \<longrightarrow>
         filter (\<lambda>q. eid q = eid r) (endsong_modified d3)
           = [r\<lparr>master_metadata_track_name := snd (options ! k),
                master_metadata_album_artist_name := fst (options ! k)\<rparr>]
         \<and> eid r \<notin> set missing \<and> eid r \<notin> set unsure)
    \<and> set missing \<union> set unsure \<subseteq> set none
    \<and> (\<forall>i. i \<notin> set none \<or> count_modified d2 i \<noteq> 0 \<longrightarrow>
          filter (\<lambda>q. eid q = i) (endsong_modified d3)
          = filter (\<lambda>q. eid q = i) (endsong_modified d2))"
proof -
  let ?xs = "iter_none e none"
  have itn: "distinct ?xs" "set ?xs = set none"
    using assms(2,4) by (simp_all add: iterates_sets_def)
  have "none_inv d2 ?xs (d3, missing, unsure)"
    using assms(1,3,5) itn unfolding none_pass_def by (intro none_loop_inv [of d2 _ e]) simp_all
  then have ext: "extends d2 d3" and mu: "set missing \<union> set unsure \<subseteq> set none"
    and zero: "\<forall>i\<in>set missing \<union> set unsure. count_modified d3 i = 0"
    and disj: "set missing \<inter> set unsure = {}"
    and rest: "\<forall>i. i \<notin> set none \<longrightarrow> count_modified d3 i = count_modified d2 i"
    using itn(2) by (simp_all add: none_inv_def)
  from ext obtain new where new: "endsong_modified d3 = endsong_modified d2 @ new"
    and fresh: "\<forall>y\<in>set new. count_modified d2 (eid y) = 0" and dnew: "distinct (map eid new)"
    by (auto simp: extends_def)
  have A: "eid r \<notin> set unsure \<and> count_modified d3 (eid r) = 0" if "eid r \<in> set missing"
    using that zero disj by auto
  have B: "eid r \<notin> set missing \<and> count_modified d3 (eid r) = 0" if "eid r \<in> set unsure"
    using that zero disj by auto
  have C: "filter (\<lambda>q. eid q = eid r) (endsong_modified d3) = [y]
      \<and> eid r \<notin> set missing \<and> eid r \<notin> set unsure"
    if y: "y \<in> set (endsong_modified d3)" "eid y = eid r" for y
  proof -
    have none2: "\<forall>q\<in>set (endsong_modified d2). eid q \<noteq> eid r"
      using assms(8) by (simp add: count_modified_all)
    then have "y \<in> set new" using y new by auto
    then have "filter (\<lambda>q. eid q = eid y) new = [y]" using dnew by (intro filter_eid_single)
    moreover have "filter (\<lambda>q. eid q = eid r) (endsong_modified d2) = []"
      using none2 by (simp add: filter_empty_conv)
    ultimately have f: "filter (\<lambda>q. eid q = eid r) (endsong_modified d3) = [y]"
      using y(2) by (simp add: new)
    then have "count_modified d3 (eid r) \<noteq> 0" by (simp add: count_modified_def)
    then show ?thesis using f zero by auto
  qed
  from assms(1-5,7) obtain d m u d' m' u' where
    st: "none_step e (d, m, u) (eid r) = Inr (d', m', u')"
    and f1: "history d = history d2" "endsong d = endsong d2"
    and c: "count_modified d (eid r) = count_modified d2 (eid r)"
    and sub3: "set (endsong_modified d') \<subseteq> set (endsong_modified d3)"
    and m3: "set m' \<subseteq> set missing" and u3: "set u' \<subseteq> set unsure"
    by (rule none_pass_entry)
  have pkd: "distinct (map eid (endsong d))" and rin: "r \<in> set (endsong d)"
    and c0: "count_modified d (eid r) = 0"
    using assms(1,6,8) f1 c by simp_all
  have cands: "cands = duration_matches d (ms_played r)"
    using assms(9) f1(1) by (simp add: duration_matches_def)
  note row = none_step_row [OF pkd rin c0 assms(2) cands assms(10,11), of m u]
  have opt: "distinct options \<and> set options = set cands" using row by simp
  have a: "cands = [] \<longrightarrow>
         eid r \<in> set missing \<and> eid r \<notin> set unsure \<and> count_modified d3 (eid r) = 0"
  proof
    assume "cands = []"
    then have "none_step e (d, m, u) (eid r) = Inr (d, set_add (eid r) m, u)"
      using row by simp
    then have "m' = set_add (eid r) m" using st by simp
    then have "eid r \<in> set missing" using m3 by (auto simp: set_add_def split: if_splits)
    then show "eid r \<in> set missing \<and> eid r \<notin> set unsure \<and> count_modified d3 (eid r) = 0"
      using A by simp
  qed
  have b: "\<forall>p. set cands = {p} \<longrightarrow>
         filter (\<lambda>q. eid q = eid r) (endsong_modified d3)
           = [r\<lparr>master_metadata_track_name := snd p, master_metadata_album_artist_name := fst p\<rparr>]
         \<and> eid r \<notin> set missing \<and> eid r \<notin> set unsure"
  proof (intro allI impI)
    fix p assume "set cands = {p}"
    then have "none_step e (d, m, u) (eid r)
         = Inr (d\<lparr>endsong_modified := endsong_modified d @ [set_names (snd p) (fst p) r]\<rparr>,
                m, u)"
      using row by blast
    then have "d' = d\<lparr>endsong_modified := endsong_modified d @ [set_names (snd p) (fst p) r]\<rparr>"
      using st by simp
    then have "set_names (snd p) (fst p) r \<in> set (endsong_modified d3)" using sub3 by auto
    from C [OF this]
    show "filter (\<lambda>q. eid q = eid r) (endsong_modified d3)
           = [r\<lparr>master_metadata_track_name := snd p, master_metadata_album_artist_name := fst p\<rparr>]
         \<and> eid r \<notin> set missing \<and> eid r \<notin> set unsure"
      by (simp add: set_names_def)
  qed
  have cc: "1 < card (set cands) \<and> (x = ''u'' \<or> x = ''U'') \<longrightarrow>
         eid r \<in> set unsure \<and> eid r \<notin> set missing \<and> count_modified d3 (eid r) = 0"
  proof
    assume "1 < card (set cands) \<and> (x = ''u'' \<or> x = ''U'')"
    then have "none_step e (d, m, u) (eid r) = Inr (d, m, set_add (eid r) u)"
      using row by blast
    then have "u' = set_add (eid r) u" using st by simp
    then have "eid r \<in> set unsure" using u3 by (auto simp: set_add_def split: if_splits)
    then show "eid r \<in> set unsure \<and> eid r \<notin> set missing \<and> count_modified d3 (eid r) = 0"
      using B by simp
  qed
  have dd: "\<forall>k. 1 < card (set cands) \<and> x \<noteq> ''u'' \<and> x \<noteq> ''U''
             \<and> py_int x = Some (int k) \<and> k < length options \<longrightarrow>
         filter (\<lambda>q. eid q = eid r) (endsong_modified d3)
           = [r\<lparr>master_metadata_track_name := snd (options ! k),
                master_metadata_album_artist_name := fst (options ! k)\<rparr>]
         \<and> eid r \<notin> set missing \<and> eid r \<notin> set unsure"
  proof (intro allI impI)
    fix k
    assume "1 < card (set cands) \<and> x \<noteq> ''u'' \<and> x \<noteq> ''U''
             \<and> py_int x = Some (int k) \<and> k < length options"
    then have "none_step e (d, m, u) (eid r)
         = Inr (d\<lparr>endsong_modified :=
                   endsong_modified d
                   @ [set_names (snd (options ! k)) (fst (options ! k)) r]\<rparr>, m, u)"
      using row by blast
    then have "d' = d\<lparr>endsong_modified :=
                   endsong_modified d @ [set_names (snd (options ! k)) (fst (options ! k)) r]\<rparr>"
      using st by simp
    then have "set_names (snd (options ! k)) (fst (options ! k)) r \<in> set (endsong_modified d3)"
      using sub3 by auto
    from C [OF this]
    show "filter (\<lambda>q. eid q = eid r) (endsong_modified d3)
           = [r\<lparr>master_metadata_track_name := snd (options ! k),
                master_metadata_album_artist_name := fst (options ! k)\<rparr>]
         \<and> eid r \<notin> set missing \<and> eid r \<notin> set unsure"
      by (simp add: set_names_def)
  qed
  have ee: "\<forall>i. i \<notin> set none \<or> count_modified d2 i \<noteq> 0 \<longrightarrow>
          filter (\<lambda>q. eid q = i) (endsong_modified d3)
          = filter (\<lambda>q. eid q = i) (endsong_modified d2)"
  proof (intro allI impI)
    fix i assume i: "i \<notin> set none \<or> count_modified d2 i \<noteq> 0"
    have "filter (\<lambda>q. eid q = i) new = []"
    proof (cases "count_modified d2 i = 0")
      case True
      then have "count_modified d3 i = 0" using i rest by simp
      then show ?thesis by (simp add: count_modified_def new)
    next
      case False
      then have "\<forall>y\<in>set new. eid y \<noteq> i" using fresh by auto
      then show ?thesis by (simp add: filter_empty_conv)
    qed
    then show "filter (\<lambda>q. eid q = i) (endsong_modified d3)
          = filter (\<lambda>q. eid q = i) (endsong_modified d2)"
      by (simp add: new)
  qed
  show ?thesis
    using opt [THEN conjunct1] opt [THEN conjunct2] a b cc dd mu ee by (intro conjI)
qed


text \<open>
  On the example store with the loop run over the rows 14, 15 and 16 from the empty
  table: row 15 has no candidate and is reported missing; row 16 has the single
  candidate of the unknown pair; row 14 has three candidates over two distinct pairs,
  shown as two options, of which the answer 1 takes the second, and after the answer
  u the row is reported unsure.
\<close>

theorem duration_fallback_witness:
  "none_pass (env_ex ''1'') store_ex [14, 15, 16]
     = Inr (store_ex\<lparr>endsong_modified :=
              [(broken ''2022-01-05T12:00:00Z'' 42000 500 14)
            \<lparr>master_metadata_track_name := Some ''S1'',
             master_metadata_album_artist_name := Some ''B1''\<rparr>,
               (broken ''2022-01-03T08:00:10Z'' 1000 700 16)
            \<lparr>master_metadata_track_name := Some ''Unknown Track'',
             master_metadata_album_artist_name := Some ''Unknown Artist''\<rparr>]\<rparr>, [15], [])
   \<and> none_pass (env_ex ''u'') store_ex [14, 15, 16]
     = Inr (store_ex\<lparr>endsong_modified :=
              [(broken ''2022-01-03T08:00:10Z'' 1000 700 16)
            \<lparr>master_metadata_track_name := Some ''Unknown Track'',
             master_metadata_album_artist_name := Some ''Unknown Artist''\<rparr>]\<rparr>, [15], [14])
   \<and> iter_options (env_ex ''1'') (duration_matches store_ex (Some 42000))
       = [(Some ''B2'', Some ''S2''), (Some ''B1'', Some ''S1'')]
   \<and> filter (\<lambda>q. eid q = 14)
        [(broken ''2022-01-05T12:00:00Z'' 42000 500 14)
            \<lparr>master_metadata_track_name := Some ''S1'',
             master_metadata_album_artist_name := Some ''B1''\<rparr>,
         (broken ''2022-01-03T08:00:10Z'' 1000 700 16)
            \<lparr>master_metadata_track_name := Some ''Unknown Track'',
             master_metadata_album_artist_name := Some ''Unknown Artist''\<rparr>]
       = [(broken ''2022-01-05T12:00:00Z'' 42000 500 14)
            \<lparr>master_metadata_track_name := Some ''S1'',
             master_metadata_album_artist_name := Some ''B1''\<rparr>]
   \<and> filter (\<lambda>q. eid q = 16)
        [(broken ''2022-01-05T12:00:00Z'' 42000 500 14)
            \<lparr>master_metadata_track_name := Some ''S1'',
             master_metadata_album_artist_name := Some ''B1''\<rparr>,
         (broken ''2022-01-03T08:00:10Z'' 1000 700 16)
            \<lparr>master_metadata_track_name := Some ''Unknown Track'',
             master_metadata_album_artist_name := Some ''Unknown Artist''\<rparr>]
       = [(broken ''2022-01-03T08:00:10Z'' 1000 700 16)
            \<lparr>master_metadata_track_name := Some ''Unknown Track'',
             master_metadata_album_artist_name := Some ''Unknown Artist''\<rparr>]
   \<and> (15 :: int) \<in> set [15] \<and> (15 :: int) \<notin> set [] \<and> (14 :: int) \<in> set [14]
   \<and> (14 :: int) \<notin> set [15]"
proof -
  let ?r14 = "broken ''2022-01-05T12:00:00Z'' 42000 500 14"
  let ?r15 = "broken ''2022-01-06T12:00:00Z'' 777 600 15"
  let ?r16 = "broken ''2022-01-03T08:00:10Z'' 1000 700 16"
  let ?W1 = "[?r14\<lparr>master_metadata_track_name := Some ''S1'',
                     master_metadata_album_artist_name := Some ''B1''\<rparr>,
              ?r16\<lparr>master_metadata_track_name := Some ''Unknown Track'',
                     master_metadata_album_artist_name := Some ''Unknown Artist''\<rparr>]"
  let ?Wu = "[?r16\<lparr>master_metadata_track_name := Some ''Unknown Track'',
                     master_metadata_album_artist_name := Some ''Unknown Artist''\<rparr>]"
  have pk: "distinct (map eid (endsong store_ex))" by (simp add: store_ex_defs)
  have sub: "set [14, 15, 16] \<subseteq> eid ` set (ios_rows store_ex)" by (simp add: store_ex_defs)
  have dn: "distinct [14, 15, 16 :: int]" by simp
  have run1: "none_pass (env_ex ''1'') store_ex [14, 15, 16]
      = Inr (store_ex\<lparr>endsong_modified := ?W1\<rparr>, [15], [])"
    by (simp add: none_pass_def none_step.simps fallback_ex_defs py_index_def Let_def
        insert_resolved_def set_add_def)
  have runu: "none_pass (env_ex ''u'') store_ex [14, 15, 16]
      = Inr (store_ex\<lparr>endsong_modified := ?Wu\<rparr>, [15], [14])"
    by (simp add: none_pass_def none_step.simps fallback_ex_defs py_index_def Let_def
        insert_resolved_def set_add_def)
  have in14: "?r14 \<in> set (endsong store_ex)" and in15: "?r15 \<in> set (endsong store_ex)"
    and in16: "?r16 \<in> set (endsong store_ex)"
    by (simp_all add: store_ex_def)
  have e14: "eid ?r14 = 14" and e15: "eid ?r15 = 15" and e16: "eid ?r16 = 16"
    by (simp_all add: broken_def)
  have mem: "eid ?r14 \<in> set [14, 15, 16]" "eid ?r15 \<in> set [14, 15, 16]"
    "eid ?r16 \<in> set [14, 15, 16]"
    by (simp_all add: broken_def)
  have c: "\<And>r. count_modified store_ex (eid r) = 0" by (simp add: count_modified_def store_ex_def)
  have m14: "duration_matches store_ex (ms_played ?r14)
      = [(Some ''B1'', Some ''S1''), (Some ''B2'', Some ''S2''), (Some ''B1'', Some ''S1'')]"
    and m15: "duration_matches store_ex (ms_played ?r15) = []"
    and m16: "duration_matches store_ex (ms_played ?r16)
      = [(Some ''Unknown Artist'', Some ''Unknown Track'')]"
    by (simp_all add: fallback_ex_defs)
  have o14: "\<And>line. iter_options (env_ex line) (duration_matches store_ex (ms_played ?r14))
      = [(Some ''B2'', Some ''S2''), (Some ''B1'', Some ''S1'')]"
    unfolding m14 by (simp add: env_ex_def)
  have x: "\<And>line t os. input_index (env_ex line) t os = line" by (simp add: env_ex_def)
  have one: "py_int ''1'' = Some (int 1)" by (simp add: fallback_ex_defs)
  have card14: "1 < card (set (duration_matches store_ex (ms_played ?r14)))"
    by (simp only: length_remdups_card_conv [symmetric] m14) simp
  note T15 = duration_fallback [OF pk iterates_sets_env_ex [of "''1''"] sub dn run1 in15 mem(2) c
      refl refl refl]
  have 1: "eid ?r15 \<in> set [15] \<and> eid ?r15 \<notin> set []"
    using T15 [THEN conjunct2, THEN conjunct2, THEN conjunct1] m15 by simp
  note T16 = duration_fallback [OF pk iterates_sets_env_ex [of "''1''"] sub dn run1 in16 mem(3) c
      refl refl refl]
  have "set (duration_matches store_ex (ms_played ?r16))
      = {(Some ''Unknown Artist'', Some ''Unknown Track'')}"
    unfolding m16 by simp
  from T16 [THEN conjunct2, THEN conjunct2, THEN conjunct2, THEN conjunct1, rule_format, OF this]
  have 2: "filter (\<lambda>q. eid q = 16) ?W1
      = [?r16\<lparr>master_metadata_track_name := Some ''Unknown Track'',
               master_metadata_album_artist_name := Some ''Unknown Artist''\<rparr>]"
    unfolding e16 by simp
  note T14 = duration_fallback [OF pk iterates_sets_env_ex [of "''1''"] sub dn run1 in14 mem(1) c
      refl refl refl]
  note T14k = T14 [THEN conjunct2, THEN conjunct2, THEN conjunct2, THEN conjunct2, THEN conjunct2,
      THEN conjunct1, rule_format, of 1]
  have "filter (\<lambda>q. eid q = eid ?r14) (endsong_modified (store_ex\<lparr>endsong_modified := ?W1\<rparr>))
       = [?r14\<lparr>master_metadata_track_name :=
                   snd (iter_options (env_ex ''1'') (duration_matches store_ex (ms_played ?r14)) ! 1),
                master_metadata_album_artist_name :=
                   fst (iter_options (env_ex ''1'') (duration_matches store_ex (ms_played ?r14)) ! 1)\<rparr>]
         \<and> eid ?r14 \<notin> set [15] \<and> eid ?r14 \<notin> set []"
    by (rule T14k) (use card14 in \<open>simp add: x one o14\<close>)
  then have 3: "filter (\<lambda>q. eid q = 14) ?W1
      = [?r14\<lparr>master_metadata_track_name := Some ''S1'',
               master_metadata_album_artist_name := Some ''B1''\<rparr>]"
    and 4: "(14 :: int) \<notin> set [15]"
    unfolding o14 e14 by simp_all
  note Tu = duration_fallback [OF pk iterates_sets_env_ex [of "''u''"] sub dn runu in14 mem(1) c
      refl refl refl]
  note Tuu = Tu [THEN conjunct2, THEN conjunct2, THEN conjunct2, THEN conjunct2, THEN conjunct1,
      rule_format]
  have "eid ?r14 \<in> set [14] \<and> eid ?r14 \<notin> set [15]
      \<and> count_modified (store_ex\<lparr>endsong_modified := ?Wu\<rparr>) (eid ?r14) = 0"
    by (rule Tuu) (use card14 in \<open>simp add: x\<close>)
  then have 5: "(14 :: int) \<in> set [14]" unfolding e14 by simp
  have 6: "iter_options (env_ex ''1'') (duration_matches store_ex (Some 42000))
       = [(Some ''B2'', Some ''S2''), (Some ''B1'', Some ''S1'')]"
    using o14 [of "''1''"] by (simp add: broken_def)
  have 7: "(15 :: int) \<in> set [15] \<and> (15 :: int) \<notin> set []" using 1 unfolding e15 .
  show ?thesis using run1 runu 2 3 4 5 6 7 by simp
qed

text \<open>
  Claim C4 as stated fails: not every primary row that is still unmatched after the
  exact-key stages is handled. On the example store row 13 has no reconciled row after
  the initial pass and the cluster loop, and the secondary rows of its duration carry
  two distinct pairs, yet the fallback, whose input is 14 and 15, neither asks about it
  nor reports it: after the loop it has no reconciled row and is in neither set.
\<close>

theorem unmatched_row_skipped_counterexample:
  "initial_pass store_ex
     = Inr (store_ex\<lparr>endsong_modified := take 2 ex_resolved\<rparr>, [[1, 2]], [14, 15])
   \<and> multiple_pass (env_ex ''1'') (store_ex\<lparr>endsong_modified := take 2 ex_resolved\<rparr>) [[1, 2]]
       = Inr (store_ex\<lparr>endsong_modified := take 4 ex_resolved\<rparr>)
   \<and> map eid (take 4 ex_resolved) = [10, 16, 12, 11]
   \<and> broken ''2022-01-01T10:20:59Z'' 200000 400 13 \<in> set (ios_rows store_ex)
   \<and> remdups (duration_matches store_ex (Some 200000))
       = [(Some ''A1'', Some ''T1''), (Some ''A2'', Some ''T2'')]
   \<and> none_pass (env_ex ''1'') (store_ex\<lparr>endsong_modified := take 4 ex_resolved\<rparr>) [14, 15]
       = Inr (store_ex\<lparr>endsong_modified := ex_resolved\<rparr>, [15], [])
   \<and> map eid ex_resolved = [10, 16, 12, 11, 14]"
proof -
  have 1: "map eid (take 4 ex_resolved) = [10, 16, 12, 11]"
    and 2: "map eid ex_resolved = [10, 16, 12, 11, 14]"
    by (simp_all add: ex_resolved_def broken_def)
  have 3: "broken ''2022-01-01T10:20:59Z'' 200000 400 13 \<in> set (ios_rows store_ex)"
    by (simp add: store_ex_defs)
  have 4: "remdups (duration_matches store_ex (Some 200000))
       = [(Some ''A1'', Some ''T1''), (Some ''A2'', Some ''T2'')]"
    by (simp add: fallback_ex_defs)
  show ?thesis using ex_initial_pass ex_multiple_pass [of "''1''"] ex_none_pass 1 2 3 4 by simp
qed

section \<open>Which rows the resolvers handle\<close>

lemma resolvers_split:
  assumes "resolvers e d = Inr (d3, missing, unsure)"
  obtains d1 multiple none d2 where "initial_pass d = Inr (d1, multiple, none)"
    and "multiple_pass e d1 multiple = Inr d2"
    and "none_pass e d2 none = Inr (d3, missing, unsure)"
  using assms by (auto simp: resolvers_def split: sum.splits prod.splits)

lemma resolvers_stages:
  assumes pk: "distinct (map eid (endsong d))" and it: "iterates_sets e"
    and 1: "initial_pass d = Inr (d1, multiple, none)"
    and 2: "multiple_pass e d1 multiple = Inr d2"
    and 3: "none_pass e d2 none = Inr (d3, missing, unsure)"
  shows "extends d d1" and "appends d1 d2"
    and "none_inv d2 (iter_none e none) (d3, missing, unsure)"
    and "set (iter_none e none) = set (map eid (filter (\<lambda>r. matches_of d r = []) (ios_rows d)))"
proof -
  show e1: "extends d d1" using pk 1 by (rule extends_initial_pass)
  then have en1: "endsong d1 = endsong d" by (simp add: extends_def)
  show e2: "appends d1 d2" using 2 by (rule appends_multiple_pass)
  then have en2: "endsong d2 = endsong d" using en1 by (simp add: appends_def)
  have n: "none = add_all [] (map eid (filter (\<lambda>r. matches_of d r = []) (ios_rows d)))"
    using initial_pass_result(3) [OF pk 1] .
  then have dn: "distinct none" by simp
  then have itn: "distinct (iter_none e none)" "set (iter_none e none) = set none"
    using it by (simp_all add: iterates_sets_def)
  show s: "set (iter_none e none) = set (map eid (filter (\<lambda>r. matches_of d r = []) (ios_rows d)))"
    using itn(2) n by simp
  have sub: "set (iter_none e none) \<subseteq> eid ` set (ios_rows d2)"
    unfolding s ios_rows_extends [OF en2] by auto
  show "none_inv d2 (iter_none e none) (d3, missing, unsure)"
    using 3 pk en2 sub itn(1) unfolding none_pass_def
    by (intro none_loop_inv [of d2 _ e]) simp_all
qed

lemma resolvers_extends:
  assumes pk: "distinct (map eid (endsong d))" and it: "iterates_sets e"
    and q: "quote_free d" and run: "resolvers e d = Inr (d3, missing, unsure)"
  shows "extends d d3"
proof -
  from run obtain d1 multiple none d2 where 1: "initial_pass d = Inr (d1, multiple, none)"
    and 2: "multiple_pass e d1 multiple = Inr d2"
    and 3: "none_pass e d2 none = Inr (d3, missing, unsure)"
    by (rule resolvers_split)
  note st = resolvers_stages [OF pk it 1 2 3]
  have f: "endsong d1 = endsong d" "history d1 = history d" using st(1) by (simp_all add: extends_def)
  have "quote_free d1" using q quote_free_cong [OF f(2)] by simp
  then have "extends d1 d2" using 2 pk f(1) by (intro extends_multiple_pass [of d1 e multiple]) simp_all
  moreover have "extends d2 d3" using st(3) by (simp add: none_inv_def)
  ultimately show ?thesis using st(1) extends_trans by blast
qed

text \<open>
  Claim C6, as amended. Only primary rows whose platform is ios enter the matching
  pipeline, and the platform is all that is looked at: whether \<open>track_name\<close> and
  \<open>artist_name\<close> are NULL is not examined. When no end time of the secondary log
  holds an apostrophe (the cluster loop pastes the end time into the text of its query,
  and an apostrophe rewrites that query, which then may select rows of any platform)
  and the three resolver stages return, \<open>history\<close> and \<open>endsong\<close> are as before, every
  reconciled row that was added is the copy of an ios row with a new track and artist,
  and every id in the Missing and Unsure sets is the id of an ios row.
\<close>

theorem only_ios_rows_enter:
  assumes "distinct (map eid (endsong d))" and "iterates_sets e"
    and "\<forall>h\<in>set (history d). \<forall>t. endTime h = Some t \<longrightarrow> CHR 0x27 \<notin> set t"
    and "resolvers e d = Inr (d3, missing, unsure)"
  shows "history d3 = history d \<and> endsong d3 = endsong d
    \<and> (\<exists>new. endsong_modified d3 = endsong_modified d @ new
          \<and> (\<forall>x\<in>set new. \<exists>r\<in>set (endsong d).
                 platform r = Some ''ios''
                 \<and> (\<exists>t a. x = r\<lparr>master_metadata_track_name := t,
                                  master_metadata_album_artist_name := a\<rparr>)))
    \<and> (\<forall>i\<in>set missing \<union> set unsure. \<exists>r\<in>set (endsong d).
           platform r = Some ''ios'' \<and> eid r = i)"
proof -
  from resolvers_split [OF assms(4)] obtain d1 multiple none d2 where
    1: "initial_pass d = Inr (d1, multiple, none)"
    and 2: "multiple_pass e d1 multiple = Inr d2"
    and 3: "none_pass e d2 none = Inr (d3, missing, unsure)"
    by blast
  note st = resolvers_stages [OF assms(1,2) 1 2 3]
  have inv: "set missing \<union> set unsure \<subseteq> set (iter_none e none)"
    using st(3) by (simp add: none_inv_def)
  have q: "quote_free d" using assms(3) by (simp add: quote_free_def)
  have ext: "extends d d3" using assms(1,2) q assms(4) by (rule resolvers_extends)
  then obtain new where h: "history d3 = history d" and e: "endsong d3 = endsong d"
    and m: "endsong_modified d3 = endsong_modified d @ new"
    and r: "\<forall>x\<in>set new. renamed_ios d x"
    by (auto simp: extends_def)
  have r': "\<forall>x\<in>set new. \<exists>r\<in>set (endsong d). platform r = Some ''ios''
      \<and> (\<exists>t a. x = r\<lparr>master_metadata_track_name := t, master_metadata_album_artist_name := a\<rparr>)"
  proof
    fix x assume "x \<in> set new"
    then have "renamed_ios d x" using r by simp
    then obtain r0 t a where "r0 \<in> set (ios_rows d)" and x: "x = set_names t a r0"
      unfolding renamed_ios_def by blast
    then have "r0 \<in> set (endsong d)" "platform r0 = Some ''ios''" by (simp_all add: ios_rows_def)
    then show "\<exists>r\<in>set (endsong d). platform r = Some ''ios''
      \<and> (\<exists>t a. x = r\<lparr>master_metadata_track_name := t, master_metadata_album_artist_name := a\<rparr>)"
      using x unfolding set_names_def by blast
  qed
  have mu: "\<forall>i\<in>set missing \<union> set unsure. \<exists>r\<in>set (endsong d). platform r = Some ''ios'' \<and> eid r = i"
    using inv st(4) by (auto simp: ios_rows_def)
  show ?thesis using h e m r' mu by blast
qed


text \<open>
  On the example store the resolvers leave the two source tables as they are and add
  five reconciled rows, each the copy of an ios row of the store with a track and an
  artist; the android row, the last of the table, is not among them.
\<close>

theorem only_ios_rows_enter_witness:
  "resolvers (env_ex ''1'') store_ex = Inr (store_ex\<lparr>endsong_modified := ex_resolved\<rparr>, [15], [])
   \<and> history (store_ex\<lparr>endsong_modified := ex_resolved\<rparr>) = history store_ex
   \<and> endsong (store_ex\<lparr>endsong_modified := ex_resolved\<rparr>) = endsong store_ex
   \<and> ex_resolved
       = [(endsong store_ex ! 0)
          \<lparr>master_metadata_track_name := Some ''X'',
           master_metadata_album_artist_name := Some ''Y''\<rparr>,
        (endsong store_ex ! 6)
          \<lparr>master_metadata_track_name := Some ''Unknown Track'',
           master_metadata_album_artist_name := Some ''Unknown Artist''\<rparr>,
        (endsong store_ex ! 2)
          \<lparr>master_metadata_track_name := Some ''T1'',
           master_metadata_album_artist_name := Some ''A1''\<rparr>,
        (endsong store_ex ! 1)
          \<lparr>master_metadata_track_name := Some ''T2'',
           master_metadata_album_artist_name := Some ''A2''\<rparr>,
        (endsong store_ex ! 4)
          \<lparr>master_metadata_track_name := Some ''S1'',
           master_metadata_album_artist_name := Some ''B1''\<rparr>]
   \<and> map platform (endsong store_ex)
       = [Some ''ios'', Some ''ios'', Some ''ios'', Some ''ios'', Some ''ios'', Some ''ios'',
          Some ''ios'', Some ''android'']"
proof -
  have pk: "distinct (map eid (endsong store_ex))" by (simp add: store_ex_defs)
  have q: "\<forall>h\<in>set (history store_ex). \<forall>t. endTime h = Some t \<longrightarrow> CHR 0x27 \<notin> set t"
    by (simp add: store_ex_def hist_def)
  have rows: "ex_resolved
       = [(endsong store_ex ! 0)
          \<lparr>master_metadata_track_name := Some ''X'',
           master_metadata_album_artist_name := Some ''Y''\<rparr>,
        (endsong store_ex ! 6)
          \<lparr>master_metadata_track_name := Some ''Unknown Track'',
           master_metadata_album_artist_name := Some ''Unknown Artist''\<rparr>,
        (endsong store_ex ! 2)
          \<lparr>master_metadata_track_name := Some ''T1'',
           master_metadata_album_artist_name := Some ''A1''\<rparr>,
        (endsong store_ex ! 1)
          \<lparr>master_metadata_track_name := Some ''T2'',
           master_metadata_album_artist_name := Some ''A2''\<rparr>,
        (endsong store_ex ! 4)
          \<lparr>master_metadata_track_name := Some ''S1'',
           master_metadata_album_artist_name := Some ''B1''\<rparr>]"
    by (simp add: ex_resolved_def store_ex_def)
  have pl: "map platform (endsong store_ex)
       = [Some ''ios'', Some ''ios'', Some ''ios'', Some ''ios'', Some ''ios'', Some ''ios'',
          Some ''ios'', Some ''android'']"
    by (simp add: store_ex_def broken_def intact_def)
  from only_ios_rows_enter [OF pk iterates_sets_env_ex q ex_resolvers]
  show ?thesis using ex_resolvers rows pl by simp
qed

text \<open>
  Claim C6 as stated fails: an ios row whose track and artist are not NULL is matched
  like any other ios row, and its reconciled copy gets the names of the secondary row.
\<close>

theorem named_ios_row_counterexample:
  "master_metadata_track_name named_row = Some ''P''
   \<and> master_metadata_album_artist_name named_row = Some ''Q''
   \<and> initial_pass store_named
       = Inr (store_named\<lparr>endsong_modified :=
                [named_row\<lparr>master_metadata_track_name := Some ''X'',
                            master_metadata_album_artist_name := Some ''Y''\<rparr>]\<rparr>, [], [])"
  by (simp add: initial_pass_def initial_step.simps store_named_def named_row_def hist_def
      ios_rows_def exact_matches_def minute_key_def sql_eq_def count_modified_def
      insert_resolved_def set_names_def)


text \<open>
  The hypothesis on the end times is needed. In \<open>store_quote\<close> the one ios row has
  two exact matches, whose end time holds an apostrophe; the rewritten cluster query
  returns the ios row and the android row, and the loop pairs the android row with the
  second secondary row and reconciles it.
\<close>

lemma rewritten_query_example:
  "initial_pass store_quote = Inr (store_quote, [[1, 2]], [])
   \<and> multiple_pass env_quote store_quote [[1, 2]]
       = Inr (store_quote\<lparr>endsong_modified :=
                [(broken quoted_time 5 100 10)
                   \<lparr>master_metadata_track_name := Some ''T1'',
                    master_metadata_album_artist_name := Some ''A1''\<rparr>,
                 intact
                   \<lparr>master_metadata_track_name := Some ''T2'',
                    master_metadata_album_artist_name := Some ''A2''\<rparr>]\<rparr>)
   \<and> platform intact = Some ''android''"
  by (simp add: initial_pass_def initial_step.simps multiple_pass_def multiple_step_def
      cluster_history_def resolve_pair_def insert_resolved_def set_add_def env_quote_def
      env_ex_def store_quote_def quoted_time_def hist_def broken_def intact_def ios_rows_def
      exact_matches_def minute_key_def sql_eq_def count_modified_def
      set_names_def)

text \<open>
  Claim C7, as amended. The input of the Duration-Fallback Resolver is the set
  \<open>none\<close> that the initial pass collected: the ids of the ios rows whose exact-key
  query had no result. It is not computed again from the store. So a primary row whose
  exact-key query had a result, such as a surplus row of an Ambiguous cluster, is never
  passed to the fallback: it is in neither report, and it has after the fallback stage
  the reconciled rows it had before it.
\<close>

theorem fallback_input_is_cached:
  assumes "distinct (map eid (endsong d))" and "iterates_sets e"
    and "initial_pass d = Inr (d1, multiple, none)"
    and "multiple_pass e d1 multiple = Inr d2"
    and "none_pass e d2 none = Inr (d3, missing, unsure)"
    and "r \<in> set (ios_rows d)" and "matches_of d r \<noteq> []"
  shows "set none = set (map eid (filter (\<lambda>r. matches_of d r = []) (ios_rows d)))
    \<and> eid r \<notin> set none \<and> eid r \<notin> set missing \<and> eid r \<notin> set unsure
    \<and> count_modified d3 (eid r) = count_modified d2 (eid r)"
proof -
  note st = resolvers_stages [OF assms(1-5)]
  have n: "none = add_all [] (map eid (filter (\<lambda>r. matches_of d r = []) (ios_rows d)))"
    using initial_pass_result(3) [OF assms(1,3)] .
  then have sn: "set none = set (map eid (filter (\<lambda>r. matches_of d r = []) (ios_rows d)))"
    by simp
  have notin: "eid r \<notin> set none"
  proof
    assume "eid r \<in> set none"
    then obtain q where q: "q \<in> set (ios_rows d)" "matches_of d q = []" "eid q = eid r"
      unfolding sn by auto
    have "distinct (map eid (ios_rows d))" using ios_rows_facts(2) [OF assms(1)] .
    then have "q = r" using q(1,3) assms(6) by (meson distinct_map inj_onD)
    then show False using q(2) assms(7) by simp
  qed
  then have pre: "eid r \<notin> set (iter_none e none)" using st(4) sn by simp
  have "set missing \<union> set unsure \<subseteq> set (iter_none e none)"
    and "\<forall>i. i \<notin> set (iter_none e none) \<longrightarrow> count_modified d3 i = count_modified d2 i"
    using st(3) by (simp_all add: none_inv_def)
  then show ?thesis using sn notin pre by blast
qed

text \<open>
  On the example store row 13 has two exact matches; it is not in the input of the
  fallback and has no reconciled row before or after it.
\<close>

theorem fallback_input_is_cached_witness:
  "set [14, 15] = {14, 15 :: int} \<and> (13 :: int) \<notin> set [14, 15] \<and> (13 :: int) \<notin> set [15]
   \<and> count_modified (store_ex\<lparr>endsong_modified := ex_resolved\<rparr>) 13 = 0"
proof -
  let ?r = "broken ''2022-01-01T10:20:59Z'' 200000 400 13"
  have pk: "distinct (map eid (endsong store_ex))" by (simp add: store_ex_defs)
  have r: "?r \<in> set (ios_rows store_ex)" by (simp add: store_ex_defs)
  have m: "matches_of store_ex ?r \<noteq> []" by (simp add: store_ex_defs)
  have e: "eid ?r = 13" by (simp add: broken_def)
  have c: "count_modified (store_ex\<lparr>endsong_modified := take 4 ex_resolved\<rparr>) 13 = 0"
    by (simp add: count_modified_def ex_resolved_def set_names_def broken_def)
  note T = fallback_input_is_cached [OF pk iterates_sets_env_ex ex_initial_pass ex_multiple_pass
      ex_none_pass r m]
  have "count_modified (store_ex\<lparr>endsong_modified := ex_resolved\<rparr>) (eid ?r)
      = count_modified (store_ex\<lparr>endsong_modified := take 4 ex_resolved\<rparr>) (eid ?r)"
    using T [THEN conjunct2, THEN conjunct2, THEN conjunct2, THEN conjunct2] .
  then have "count_modified (store_ex\<lparr>endsong_modified := ex_resolved\<rparr>) 13 = 0"
    unfolding e c .
  then show ?thesis by simp
qed

text \<open>
  Claim C7 as stated fails. On the example store the cluster of the secondary rows 1
  and 2 has the three primary candidates 12, 11 and 13. Row 13 is the surplus. Two
  secondary rows have its duration, so the fallback would have had candidates for it,
  but the input of the fallback is 14 and 15, and after the resolvers row 13 has no
  reconciled row and is in neither report.
\<close>

theorem surplus_row_counterexample:
  "initial_pass store_ex
     = Inr (store_ex\<lparr>endsong_modified := take 2 ex_resolved\<rparr>, [[1, 2]], [14, 15])
   \<and> map eid (cluster_rows store_ex 200000 ''2022-01-01 10:20'') = [12, 11, 13]
   \<and> duration_matches store_ex (Some 200000)
       = [(Some ''A1'', Some ''T1''), (Some ''A2'', Some ''T2'')]
   \<and> resolvers (env_ex ''1'') store_ex
       = Inr (store_ex\<lparr>endsong_modified := ex_resolved\<rparr>, [15], [])
   \<and> map eid ex_resolved = [10, 16, 12, 11, 14]"
proof -
  have "map eid (cluster_rows store_ex 200000 ''2022-01-01 10:20'') = [12, 11, 13]"
    by (simp add: cluster_rows_def begins_with_minute_def replace_all_def sql_lower_def
        store_ex_defs)
  moreover have "duration_matches store_ex (Some 200000)
       = [(Some ''A1'', Some ''T1''), (Some ''A2'', Some ''T2'')]"
    by (simp add: fallback_ex_defs)
  moreover have "map eid ex_resolved = [10, 16, 12, 11, 14]"
    by (simp add: ex_resolved_def set_names_def broken_def)
  ultimately show ?thesis using ex_initial_pass ex_resolvers by simp
qed

section \<open>Errors that end a run\<close>

lemmas track_ex_defs =
  track_data_stage_def del_sentinel_def sentinel_def track_data_def album_uri_def
  needs_data_def set_data_def sql_eq_def env_ex_def

lemma ex_track_data_stage:
  "track_data_stage (env_ex line) (store_ex\<lparr>endsong_modified := ex_resolved\<rparr>)
   = Inr ([(set_names (Some ''X'') (Some ''Y'') (broken ''2022-01-01T10:15:32Z'' 180000 100 10))
             \<lparr>master_metadata_album_album_name := Some ''Z'',
              spotify_track_uri := Some ''spotify:track:4uLU6hMCjMI75M1A2tKUQC''\<rparr>,
           set_names (Some ''Unknown Track'') (Some ''Unknown Artist'')
             (broken ''2022-01-03T08:00:10Z'' 1000 700 16),
           set_names (Some ''T1'') (Some ''A1'') (broken ''2022-01-01T10:20:40Z'' 200000 200 12),
           set_names (Some ''T2'') (Some ''A2'') (broken ''2022-01-01T10:20:05Z'' 200000 300 11),
           set_names (Some ''S1'') (Some ''B1'') (broken ''2022-01-05T12:00:00Z'' 42000 500 14)], [])"
  by (simp add: track_ex_defs ex_resolved_def store_ex_def hist_def broken_def intact_def
      set_names_def)


lemma ex_run:
  "run (env_ex ''1'') store_ex
   = Inr \<lparr>store = store_ex\<lparr>endsong_modified := ex_exported\<rparr>,
          missing_report = [15], unsure_report = [], skipped_report = []\<rparr>"
  by (simp add: run_def ex_resolvers ex_track_data_stage fixup1_def fixup2_def like_https_def
      not_like_spotify_def sql_lower_def sql_like_percent delete_unknown_def is_sentinel_def
      ex_exported_def set_names_def broken_def)

text \<open>
  Claim C9 fails on the code. At the prompt of the no-match loop a line that is neither
  u, U nor a number raises ValueError, and a number that is no index of the option list
  raises IndexError; either ends the run. And on the first scenario of the
  specification alone, where no reconciled row carries the unknown pair, the
  unconditional \<open>del\<close> raises KeyError.
\<close>

theorem run_aborts:
  "run (env_ex ''x'') store_ex = Inl ValueError
   \<and> run (env_ex ''7'') store_ex = Inl IndexError
   \<and> run (env_ex ''0'') store_scenario = Inl KeyError"
proof -
  have n: "\<And>line. none_pass (env_ex line) (store_ex\<lparr>endsong_modified := take 4 ex_resolved\<rparr>) [14, 15]
      = for_each (none_step (env_ex line)) [14, 15]
          (store_ex\<lparr>endsong_modified := take 4 ex_resolved\<rparr>, [], [])"
    by (simp add: none_pass_def env_ex_def)
  have 1: "run (env_ex ''x'') store_ex = Inl ValueError"
    by (simp only: run_def resolvers_def ex_initial_pass ex_multiple_pass n sum.case prod.case)
      (simp add: none_step.simps fallback_ex_defs Let_def ex_resolved_def)
  have 2: "run (env_ex ''7'') store_ex = Inl IndexError"
    by (simp only: run_def resolvers_def ex_initial_pass ex_multiple_pass n sum.case prod.case)
      (simp add: none_step.simps fallback_ex_defs py_index_def Let_def ex_resolved_def)
  have i: "initial_pass store_scenario
      = Inr (store_scenario\<lparr>endsong_modified :=
               [set_names (Some ''X'') (Some ''Y'') (broken ''2022-01-01T10:15:32'' 180000 100 10)]\<rparr>,
             [], [])"
    by (simp add: initial_pass_def initial_step.simps store_scenario_def hist_def broken_def
        ios_rows_def exact_matches_def minute_key_def sql_eq_def count_modified_def
        insert_resolved_def set_names_def)
  have r: "resolvers (env_ex ''0'') store_scenario
      = Inr (store_scenario\<lparr>endsong_modified :=
               [set_names (Some ''X'') (Some ''Y'') (broken ''2022-01-01T10:15:32'' 180000 100 10)]\<rparr>,
             [], [])"
    by (simp only: resolvers_def i sum.case prod.case)
      (simp add: multiple_pass_def none_pass_def env_ex_def)
  have 3: "run (env_ex ''0'') store_scenario = Inl KeyError"
    by (simp only: run_def r sum.case prod.case)
      (simp add: track_data_stage_def del_sentinel_def sentinel_def track_data_def album_uri_def
        needs_data_def set_data_def sql_eq_def store_scenario_def hist_def broken_def
        set_names_def)
  show ?thesis using 1 2 3 by simp
qed

section \<open>Track data\<close>

lemma map_set_data_other: "i \<notin> eid ` set xs \<Longrightarrow> map (set_data i x) xs = xs"
  by (induction xs) (auto simp: set_data_def)

lemma eid_set_data [simp]: "eid (set_data i x r) = eid r"
  by (simp add: set_data_def)

lemma eid_enrich [simp]: "eid (enrich d r) = eid r"
  by (simp add: enrich_def split: list.splits)

lemma queue_Nil [simp]: "queue d ne [] = ne"
  and queue_Cons [simp]:
    "queue d ne (r # rs)
     = queue d (if unplaced d r then AList.update (names r) (eid r) ne else ne) rs"
  by (simp_all add: queue_def)

lemma add_track_data_distinct:
  "distinct (map eid (seen @ rs)) \<Longrightarrow>
   add_track_data d seen ne rs = (seen @ map (enrich d) rs, queue d ne rs)"
proof (induction rs arbitrary: seen ne)
  case Nil
  then show ?case by simp
next
  case (Cons r rs)
  have d1: "distinct (map eid ((seen @ [r]) @ rs))" using Cons.prems by simp
  have ns: "eid r \<notin> eid ` set seen" and nr: "eid r \<notin> eid ` set rs"
    using Cons.prems by auto
  show ?case
  proof (cases "needs_data r")
    case False
    then show ?thesis using Cons.IH [OF d1] by (simp add: enrich_def unplaced_def)
  next
    case True
    show ?thesis
    proof (cases "track_data d (master_metadata_track_name r) (master_metadata_album_artist_name r)")
      case Nil
      then show ?thesis using True Cons.IH [OF d1] by (simp add: enrich_def unplaced_def names_def)
    next
      case (Cons x xs)
      let ?r' = "set_data (eid r) x r"
      have d2: "distinct (map eid ((seen @ [?r']) @ rs))" using Cons.prems by simp
      have "add_track_data d seen ne (r # rs) = add_track_data d (seen @ [?r']) ne rs"
        using True Cons map_set_data_other [OF ns] map_set_data_other [OF nr] by simp
      then show ?thesis
        using True Cons Cons.IH [OF d2] by (simp add: enrich_def unplaced_def)
    qed
  qed
qed

lemma queue_keys:
  "fst ` set (queue d ne rs) = fst ` set ne \<union> names ` {r \<in> set rs. unplaced d r}"
  by (induction rs arbitrary: ne) (auto simp: dom_update)

lemma latest_None: "(latest rs = None) = (rs = [])"
  by (cases rs) (simp_all split: option.splits)

lemma latest_mem: "latest rs = Some m \<Longrightarrow> m \<in> set rs \<and> (\<forall>q\<in>set rs. ts q \<le> ts m)"
proof (induction rs arbitrary: m)
  case Nil
  then show ?case by simp
next
  case (Cons r rs)
  show ?case
  proof (cases "latest rs")
    case None
    then have "rs = []" by (simp add: latest_None)
    then show ?thesis using Cons.prems None by simp
  next
    case (Some m')
    then have IH: "m' \<in> set rs" "\<forall>q\<in>set rs. ts q \<le> ts m'" using Cons.IH by simp_all
    show ?thesis
    proof (cases "ts r < ts m'")
      case True
      then have "m = m'" using Cons.prems Some by simp
      then show ?thesis using IH True by auto
    next
      case False
      then have "m = r" using Cons.prems Some by simp
      moreover have "\<forall>q\<in>set rs. ts q \<le> ts r" using IH(2) False by (meson le_less_linear order_trans)
      ultimately show ?thesis by simp
    qed
  qed
qed

lemma first_of_each_set: "set (first_of_each f seen rs) \<subseteq> set rs"
  by (induction rs arbitrary: seen) auto

lemma first_of_each_keys:
  "f ` set (first_of_each f seen rs) = f ` set rs - set seen"
  by (induction rs arbitrary: seen) auto

lemma first_of_each_Nil: "(first_of_each f [] rs = []) = (rs = [])"
  by (cases rs) auto


lemma keys_delete: "fst ` set (AList.delete k al) = fst ` set al - {k}"
proof -
  have "set (map fst (AList.delete k al)) = set (map fst al) - {k}"
    by (simp only: delete_keys set_removeAll)
  then show ?thesis by simp
qed

lemma track_data_empty: "(track_data d t a = []) = (same_song d t a = [])"
proof -
  have "(track_data d t a = [])
      = (latest (first_of_each album_uri [] (same_song d t a)) = None)"
    by (simp add: track_data_def same_song_def split: option.splits)
  then show ?thesis by (simp only: latest_None first_of_each_Nil)
qed

lemma track_data_latest:
  assumes "track_data d t a = x # xs"
  shows "xs = [] \<and> (\<exists>m\<in>set (first_of_each album_uri [] (same_song d t a)).
            x = album_uri m
            \<and> (\<forall>q\<in>set (first_of_each album_uri [] (same_song d t a)). ts q \<le> ts m))"
proof -
  from assms obtain m where m: "latest (first_of_each album_uri [] (same_song d t a)) = Some m"
    and x: "x = album_uri m" "xs = []"
    by (auto simp: track_data_def same_song_def split: option.splits)
  from latest_mem [OF m] show ?thesis using x by blast
qed

text \<open>
  Claim C8, as amended. In a reconciled table with pairwise distinct ids, the
  track-data loop visits every row that misses its album or its URI and looks up the
  primary rows of exactly its track and artist (\<open>same_song\<close>). If there is none, the
  (track, artist) pair is put into \<open>no_extra\<close>, the queue of the search. Otherwise
  album and URI of the row are overwritten, NULL or not, with the pair of one of those
  primary rows: among the rows that are the first to show their (album, uri) pair,
  one with the latest timestamp. The unknown pair is looked up like any other; the
  \<open>del\<close> that follows takes it out of the queue, so that the search never gets it.
\<close>

theorem track_data_pass:
  assumes "distinct (map eid rows)" and "add_track_data d [] [] rows = (rows', no_extra)"
  shows "rows' = map (enrich d) rows
    \<and> fst ` set no_extra = names ` {r \<in> set rows. unplaced d r}
    \<and> (\<forall>t a. (track_data d t a = []) = (same_song d t a = []))
    \<and> (\<forall>t a x xs. track_data d t a = x # xs \<longrightarrow>
          xs = [] \<and> (\<exists>m\<in>set (first_of_each album_uri [] (same_song d t a)).
            x = album_uri m
            \<and> (\<forall>q\<in>set (first_of_each album_uri [] (same_song d t a)). ts q \<le> ts m)))
    \<and> (\<forall>ne. del_sentinel no_extra = Inr ne \<longrightarrow> fst ` set ne = fst ` set no_extra - {sentinel})"
proof -
  have "add_track_data d [] [] rows = ([] @ map (enrich d) rows, queue d [] rows)"
    using assms(1) by (intro add_track_data_distinct) simp
  then have r: "rows' = map (enrich d) rows" and q: "no_extra = queue d [] rows"
    using assms(2) by simp_all
  have k: "fst ` set no_extra = names ` {r \<in> set rows. unplaced d r}"
    unfolding q by (simp add: queue_keys)
  have del: "\<forall>ne. del_sentinel no_extra = Inr ne \<longrightarrow> fst ` set ne = fst ` set no_extra - {sentinel}"
    by (auto simp: del_sentinel_def keys_delete split: if_splits)
  have e: "\<forall>t a. (track_data d t a = []) = (same_song d t a = [])"
    by (simp add: track_data_empty)
  have l: "\<forall>t a x xs. track_data d t a = x # xs \<longrightarrow>
          xs = [] \<and> (\<exists>m\<in>set (first_of_each album_uri [] (same_song d t a)).
            x = album_uri m
            \<and> (\<forall>q\<in>set (first_of_each album_uri [] (same_song d t a)). ts q \<le> ts m))"
    using track_data_latest by blast
  from r k e l del show ?thesis by (intro conjI)
qed


text \<open>
  On the example store, after the resolvers: row 10 gets album and URI of the intact
  primary row of the same track and artist; the other rows find nothing.
\<close>

theorem track_data_pass_witness:
  "fst (add_track_data (store_ex\<lparr>endsong_modified := ex_resolved\<rparr>) [] [] ex_resolved)
   = [(set_names (Some ''X'') (Some ''Y'') (broken ''2022-01-01T10:15:32Z'' 180000 100 10))
        \<lparr>master_metadata_album_album_name := Some ''Z'',
         spotify_track_uri := Some ''spotify:track:4uLU6hMCjMI75M1A2tKUQC''\<rparr>,
      set_names (Some ''Unknown Track'') (Some ''Unknown Artist'')
        (broken ''2022-01-03T08:00:10Z'' 1000 700 16),
      set_names (Some ''T1'') (Some ''A1'') (broken ''2022-01-01T10:20:40Z'' 200000 200 12),
      set_names (Some ''T2'') (Some ''A2'') (broken ''2022-01-01T10:20:05Z'' 200000 300 11),
      set_names (Some ''S1'') (Some ''B1'') (broken ''2022-01-05T12:00:00Z'' 42000 500 14)]"
proof -
  let ?d = "store_ex\<lparr>endsong_modified := ex_resolved\<rparr>"
  have ids: "distinct (map eid ex_resolved)"
    by (simp add: ex_resolved_def set_names_def broken_def)
  have pair: "add_track_data ?d [] [] ex_resolved
      = (fst (add_track_data ?d [] [] ex_resolved), snd (add_track_data ?d [] [] ex_resolved))"
    by simp
  from track_data_pass [OF ids pair]
  have "fst (add_track_data ?d [] [] ex_resolved) = map (enrich ?d) ex_resolved"
    by (rule conjunct1)
  also have "map (enrich ?d) ex_resolved
   = [(set_names (Some ''X'') (Some ''Y'') (broken ''2022-01-01T10:15:32Z'' 180000 100 10))
        \<lparr>master_metadata_album_album_name := Some ''Z'',
         spotify_track_uri := Some ''spotify:track:4uLU6hMCjMI75M1A2tKUQC''\<rparr>,
      set_names (Some ''Unknown Track'') (Some ''Unknown Artist'')
        (broken ''2022-01-03T08:00:10Z'' 1000 700 16),
      set_names (Some ''T1'') (Some ''A1'') (broken ''2022-01-01T10:20:40Z'' 200000 200 12),
      set_names (Some ''T2'') (Some ''A2'') (broken ''2022-01-01T10:20:05Z'' 200000 300 11),
      set_names (Some ''S1'') (Some ''B1'') (broken ''2022-01-05T12:00:00Z'' 42000 500 14)]"
    by (simp add: enrich_def track_data_def album_uri_def needs_data_def set_data_def sql_eq_def
        ex_resolved_def store_ex_def hist_def broken_def intact_def set_names_def)
  finally show ?thesis .
qed

text \<open>
  Claim C8 as stated fails. In \<open>store_null\<close> the only primary row of the track X by
  Y has neither album nor URI, so the lookup has no non-NULL pair to take. Still it
  returns the row's pair of NULLs, the reconciled row is overwritten with it and stays
  as it was, and the pair X by Y is not queued for the search.
\<close>

theorem null_track_data_counterexample:
  "track_data store_null (Some ''X'') (Some ''Y'') = [(None, None)]
   \<and> add_track_data store_null [] [] [row_null] = ([row_null], [])"
  by (simp add: track_data_def album_uri_def needs_data_def set_data_def sql_eq_def
      store_null_def row_null_def hist_def broken_def intact_def set_names_def)

section \<open>Where a broken row ends up\<close>

lemma names_set_data [simp]: "names (set_data i x r) = names r"
  by (simp add: names_def set_data_def)

lemma names_set_uri [simp]: "names (set_uri i u r) = names r"
  and eid_set_uri [simp]: "eid (set_uri i u r) = eid r"
  by (simp_all add: names_def set_uri_def)

lemma add_track_data_keys:
  "add_track_data d seen ne rs = (rows, ne') \<Longrightarrow>
   map eid rows = map eid (seen @ rs) \<and> map names rows = map names (seen @ rs)"
proof (induction d seen ne rs arbitrary: rows ne' rule: add_track_data.induct)
  case (1 d seen no_extra)
  then show ?case by simp
next
  case (2 d seen no_extra r rs)
  show ?case
  proof (cases "needs_data r")
    case False
    then show ?thesis using 2 by simp
  next
    case True
    show ?thesis
    proof (cases "track_data d (master_metadata_track_name r) (master_metadata_album_artist_name r)")
      case Nil
      then show ?thesis using True 2 by simp
    next
      case (Cons x xs)
      then have "add_track_data d (map (set_data (eid r) x) (seen @ [r])) no_extra
                   (map (set_data (eid r) x) rs) = (rows, ne')"
        using True 2(4) by simp
      from 2(2) [OF True Cons this] show ?thesis by (simp add: comp_def)
    qed
  qed
qed

lemma fix_uris_keys:
  "map eid (fix_uris sel fx seen rs) = map eid (seen @ rs)
   \<and> map names (fix_uris sel fx seen rs) = map names (seen @ rs)"
proof (induction sel fx seen rs rule: fix_uris.induct)
  case (1 sel fx seen)
  then show ?case by simp
next
  case (2 sel fx seen r rs)
  show ?case
  proof (cases "spotify_track_uri r")
    case None
    then show ?thesis using 2 by simp
  next
    case (Some uri)
    show ?thesis
    proof (cases "sel uri")
      case True
      then show ?thesis using Some 2(2) [OF Some True] by (simp add: comp_def)
    next
      case False
      then show ?thesis using Some 2(3) [OF Some False] by simp
    qed
  qed
qed

lemma search_step_keys:
  assumes "search_step e (rows, sk) kv = Inr (rows', sk')"
  shows "map eid rows' = map eid rows \<and> map names rows' = map names rows"
proof -
  obtain k v where kv: "kv = (k, v)" by (cases kv)
  show ?thesis
    using assms unfolding kv
    by (cases "search e k") (auto simp: names_def)
qed

lemma track_data_stage_keys:
  assumes "track_data_stage e d = Inr (rows, skipped)"
  shows "map eid rows = map eid (endsong_modified d)"
    and "map names rows = map names (endsong_modified d)"
proof -
  obtain rows0 ne where a: "add_track_data d [] [] (endsong_modified d) = (rows0, ne)"
    by (cases "add_track_data d [] [] (endsong_modified d)")
  from assms obtain ne' where "for_each (search_step e) ne' (rows0, []) = Inr (rows, skipped)"
    by (auto simp: track_data_stage_def a split: sum.splits)
  then have "case (rows, skipped) of (rs, sk) \<Rightarrow>
      map eid rs = map eid rows0 \<and> map names rs = map names rows0"
  proof (rule for_each_preserves)
    show "case (rows0, []) of (rs, sk) \<Rightarrow> map eid rs = map eid rows0 \<and> map names rs = map names rows0"
      by simp
  next
    fix s x s'
    assume P: "case s of (rs, sk) \<Rightarrow> map eid rs = map eid rows0 \<and> map names rs = map names rows0"
      and step: "search_step e s x = Inr s'"
    obtain rs sk where s: "s = (rs, sk)" by (cases s)
    obtain rs' sk' where s': "s' = (rs', sk')" by (cases s')
    from search_step_keys [OF step [unfolded s s']] P
    show "case s' of (rs, sk) \<Rightarrow> map eid rs = map eid rows0 \<and> map names rs = map names rows0"
      unfolding s s' by simp
  qed
  then show "map eid rows = map eid (endsong_modified d)"
    and "map names rows = map names (endsong_modified d)"
    using add_track_data_keys [OF a] by simp_all
qed

lemma is_sentinel_names: "is_sentinel r = (names r = sentinel)"
  by (simp add: is_sentinel_def names_def sentinel_def)

lemma delete_unknown_keys:
  assumes "map eid rows' = map eid rows" and "map names rows' = map names rows"
  shows "map eid (delete_unknown rows') = map eid (delete_unknown rows)"
  using assms
proof (induction rows' arbitrary: rows)
  case Nil
  then show ?case by simp
next
  case (Cons a rows')
  then obtain b rs where rows: "rows = b # rs" by (cases rows) auto
  then have "eid a = eid b" "names a = names b" "map eid rows' = map eid rs"
    "map names rows' = map names rs"
    using Cons.prems by simp_all
  then show ?case
    using Cons.IH [of rs] rows by (simp add: delete_unknown_def is_sentinel_names)
qed


lemma run_split:
  assumes "run e d = Inr out"
  obtains d3 rows where "resolvers e d = Inr (d3, missing_report out, unsure_report out)"
    and "track_data_stage e d3 = Inr (rows, skipped_report out)"
    and "store out = d3\<lparr>endsong_modified := delete_unknown (fixup2 (fixup1 rows))\<rparr>"
  using assms by (auto simp: run_def split: sum.splits prod.splits)

lemma exported_ids:
  assumes "track_data_stage e d3 = Inr (rows, skipped)"
  shows "map eid (delete_unknown (fixup2 (fixup1 rows)))
       = map eid (filter (\<lambda>x. \<not> is_sentinel x) (endsong_modified d3))"
proof -
  have "map eid (fixup2 (fixup1 rows)) = map eid rows"
    and "map names (fixup2 (fixup1 rows)) = map names rows"
    unfolding fixup1_def fixup2_def
    using fix_uris_keys [of not_like_spotify canonical "[]"]
      fix_uris_keys [of like_https "\<lambda>uri. canonical (strip_url uri)" "[]" rows]
    by simp_all
  then have "map eid (fixup2 (fixup1 rows)) = map eid (endsong_modified d3)"
    and "map names (fixup2 (fixup1 rows)) = map names (endsong_modified d3)"
    using track_data_stage_keys [OF assms] by simp_all
  then have "map eid (delete_unknown (fixup2 (fixup1 rows)))
      = map eid (delete_unknown (endsong_modified d3))"
    by (rule delete_unknown_keys)
  then show ?thesis by (simp add: delete_unknown_def)
qed

lemma extends_count_mono: "extends d d' \<Longrightarrow> count_modified d i \<le> count_modified d' i"
  by (auto simp: extends_def count_modified_def)

lemma initial_pass_one_match:
  assumes "distinct (map eid (endsong d))" and "initial_pass d = Inr (d1, multiple, none)"
    and "r \<in> set (ios_rows d)" and "length (matches_of d r) = 1"
  shows "0 < count_modified d1 (eid r)"
proof (cases "count_modified d (eid r) = 0")
  case True
  then have "resolved_from (hd (matches_of d r)) r \<in> set (initial_rows d (ios_rows d))"
    using assms(3,4) by (auto simp: initial_rows_def resolved_new_def)
  moreover have "eid (resolved_from (hd (matches_of d r)) r) = eid r"
    by (simp add: resolved_from_def)
  ultimately have "\<exists>x\<in>set (endsong_modified d1). eid x = eid r"
    unfolding initial_pass_result(1) [OF assms(1,2)] by auto
  then show ?thesis
    using count_modified_all [of d1 "eid r"] by auto
next
  case False
  then show ?thesis
    using extends_count_mono [OF extends_initial_pass [OF assms(1,2)], of "eid r"] by simp
qed

text \<open>
  Claim C5, as amended. After a run that completes, the exported collection holds,
  in order, the reconciled rows that the resolvers left, less those that carry the
  unknown pair, which the exporter deletes. Every ios row whose exact-key query had at
  most one result has a reconciled row after the resolvers, or is in the Missing
  report, or is in the Unsure report; the two reports are disjoint and no row of
  either has a reconciled row. Nothing is said of an ios row whose exact-key query had
  several results: the multiple-match loop may leave it unpaired, and then it is in
  none of the three.
\<close>

theorem coverage_after_run:
  assumes "distinct (map eid (endsong d))" and "iterates_sets e" and "run e d = Inr out"
  shows "\<exists>d3.
      resolvers e d = Inr (d3, missing_report out, unsure_report out)
    \<and> map eid (endsong_modified (store out))
        = map eid (filter (\<lambda>x. \<not> is_sentinel x) (endsong_modified d3))
    \<and> (\<forall>r\<in>set (ios_rows d). length (matches_of d r) \<le> 1 \<longrightarrow>
          0 < count_modified d3 (eid r)
          \<or> eid r \<in> set (missing_report out) \<or> eid r \<in> set (unsure_report out))
    \<and> set (missing_report out) \<inter> set (unsure_report out) = {}
    \<and> (\<forall>i\<in>set (missing_report out) \<union> set (unsure_report out). count_modified d3 i = 0)"
proof -
  let ?m = "missing_report out" and ?u = "unsure_report out"
  from run_split [OF assms(3)] obtain d3 rows where
    res: "resolvers e d = Inr (d3, ?m, ?u)"
    and td: "track_data_stage e d3 = Inr (rows, skipped_report out)"
    and st: "store out = d3\<lparr>endsong_modified := delete_unknown (fixup2 (fixup1 rows))\<rparr>"
    by blast
  from resolvers_split [OF res] obtain d1 multiple none d2 where
    1: "initial_pass d = Inr (d1, multiple, none)"
    and 2: "multiple_pass e d1 multiple = Inr d2"
    and 3: "none_pass e d2 none = Inr (d3, ?m, ?u)"
    by blast
  note stg = resolvers_stages [OF assms(1,2) 1 2 3]
  have ext: "extends d2 d3" and sub: "set ?m \<union> set ?u \<subseteq> set (iter_none e none)"
    and zero: "\<forall>i\<in>set ?m \<union> set ?u. count_modified d3 i = 0"
    and dis: "set ?m \<inter> set ?u = {}"
    and cov: "\<forall>i\<in>set (iter_none e none). 0 < count_modified d3 i \<or> i \<in> set ?m \<or> i \<in> set ?u"
    using stg(3) by (simp_all add: none_inv_def)
  have ids: "map eid (endsong_modified (store out))
        = map eid (filter (\<lambda>x. \<not> is_sentinel x) (endsong_modified d3))"
    unfolding st using exported_ids [OF td] by simp
  have all: "\<forall>r\<in>set (ios_rows d). length (matches_of d r) \<le> 1 \<longrightarrow>
          0 < count_modified d3 (eid r) \<or> eid r \<in> set ?m \<or> eid r \<in> set ?u"
  proof (intro ballI impI)
    fix r assume r: "r \<in> set (ios_rows d)" and le: "length (matches_of d r) \<le> 1"
    show "0 < count_modified d3 (eid r) \<or> eid r \<in> set ?m \<or> eid r \<in> set ?u"
    proof (cases "matches_of d r = []")
      case True
      then have "eid r \<in> set (iter_none e none)" using r stg(4) by auto
      then show ?thesis using cov by blast
    next
      case False
      then have "length (matches_of d r) = 1" using le by (cases "matches_of d r") auto
      then have "0 < count_modified d1 (eid r)"
        using initial_pass_one_match [OF assms(1) 1 r] by simp
      then have "0 < count_modified d3 (eid r)"
        using appends_count_mono [OF stg(2), of "eid r"] extends_count_mono [OF ext, of "eid r"]
        by simp
      then show ?thesis by simp
    qed
  qed
  from res ids all dis zero show ?thesis by blast
qed

text \<open>
  On the example store: the exported rows are those of the resolvers without row 16,
  which carries the unknown pair.
\<close>

theorem coverage_after_run_witness:
  "map eid ex_exported = map eid (filter (\<lambda>x. \<not> is_sentinel x) ex_resolved)
   \<and> set [15 :: int] \<inter> set [] = {}"
proof -
  have pk: "distinct (map eid (endsong store_ex))" by (simp add: store_ex_defs)
  from coverage_after_run [OF pk iterates_sets_env_ex ex_run] obtain d3 where
    "resolvers (env_ex ''1'') store_ex = Inr (d3, [15], [])"
    and ids: "map eid (endsong_modified (store_ex\<lparr>endsong_modified := ex_exported\<rparr>))
        = map eid (filter (\<lambda>x. \<not> is_sentinel x) (endsong_modified d3))"
    by auto
  then have "d3 = store_ex\<lparr>endsong_modified := ex_resolved\<rparr>" using ex_resolvers by simp
  then show ?thesis using ids by simp
qed

text \<open>
  Claim C5 as stated fails. The example store has the ios rows 10 to 16. After a
  complete run rows 10, 12, 11 and 14 are exported and row 15 is in the Missing report.
  Row 13, the surplus of the cluster, and row 16, resolved to the unknown pair and then
  deleted by the exporter, are in none of the three.
\<close>

theorem dropped_rows_counterexample:
  "run (env_ex ''1'') store_ex
     = Inr \<lparr>store = store_ex\<lparr>endsong_modified := ex_exported\<rparr>,
            missing_report = [15], unsure_report = [], skipped_report = []\<rparr>
   \<and> map eid (ios_rows store_ex) = [10, 11, 12, 13, 14, 15, 16]
   \<and> map eid ex_exported = [10, 12, 11, 14]"
proof -
  have "map eid (ios_rows store_ex) = [10, 11, 12, 13, 14, 15, 16]"
    by (simp add: store_ex_defs)
  moreover have "map eid ex_exported = [10, 12, 11, 14]"
    by (simp add: ex_exported_def set_names_def broken_def)
  ultimately show ?thesis using ex_run by simp
qed

section \<open>Running the script again\<close>

lemma distinct_map_eq:
  "distinct (map f xs) \<Longrightarrow> x \<in> set xs \<Longrightarrow> y \<in> set xs \<Longrightarrow> f x = f y \<Longrightarrow> x = y"
  by (simp add: distinct_map inj_on_def)

lemma rerun_simps [simp]:
  "history (rerun F d) = history d" "endsong (rerun F d) = endsong d"
  "endsong_modified (rerun F d) = F @ filter is_sentinel (endsong_modified d)"
  by (simp_all add: rerun_def)

lemma rerun_append:
  "rerun F (d\<lparr>endsong_modified := endsong_modified d @ [x]\<rparr>)
   = (if is_sentinel x
      then (rerun F d)\<lparr>endsong_modified := endsong_modified (rerun F d) @ [x]\<rparr>
      else rerun F d)"
  by (simp add: rerun_def)

text \<open>
  The facts about the first run that the simulation uses: \<open>R3\<close> is the table after
  the resolvers of the first run and \<open>F\<close> what the run exported.
\<close>

lemma count_rerun:
  assumes ids: "eid ` set F = eid ` {x \<in> set R3. \<not> is_sentinel x}"
    and dist: "distinct (map eid R3)"
    and sub: "set (endsong_modified d) \<subseteq> set R3"
  shows "count_modified d i \<noteq> 0 \<Longrightarrow> count_modified (rerun F d) i \<noteq> 0"
    and "x \<in> set R3 \<Longrightarrow> eid x = i \<Longrightarrow> count_modified d i = 0 \<Longrightarrow>
         (count_modified (rerun F d) i = 0) = is_sentinel x"
proof -
  assume "count_modified d i \<noteq> 0"
  then obtain y where y: "y \<in> set (endsong_modified d)" "eid y = i"
    by (auto simp: count_modified_all)
  show "count_modified (rerun F d) i \<noteq> 0"
  proof (cases "is_sentinel y")
    case True
    then have "y \<in> set (endsong_modified (rerun F d))" using y by simp
    then show ?thesis using y(2) count_modified_all [of "rerun F d" i] by blast
  next
    case False
    then have "i \<in> eid ` {x \<in> set R3. \<not> is_sentinel x}" using y sub by blast
    then have "i \<in> eid ` set F" unfolding ids .
    then obtain z where "z \<in> set F" "eid z = i" by (auto simp: image_iff)
    then have "z \<in> set (endsong_modified (rerun F d))" by simp
    then show ?thesis using \<open>eid z = i\<close> count_modified_all [of "rerun F d" i] by blast
  qed
next
  assume x: "x \<in> set R3" "eid x = i" and c: "count_modified d i = 0"
  have uniq: "\<And>z. z \<in> set R3 \<Longrightarrow> eid z = i \<Longrightarrow> z = x"
    using distinct_map_eq [OF dist _ x(1)] x(2) by simp
  have nf: "\<forall>y\<in>set (filter is_sentinel (endsong_modified d)). eid y \<noteq> i"
    using c by (simp add: count_modified_all)
  show "(count_modified (rerun F d) i = 0) = is_sentinel x"
  proof (cases "is_sentinel x")
    case True
    have "\<forall>y\<in>set F. eid y \<noteq> i"
    proof
      fix y assume "y \<in> set F"
      then have "eid y \<in> eid ` set F" by (rule imageI)
      then have "eid y \<in> eid ` {x \<in> set R3. \<not> is_sentinel x}" unfolding ids .
      then obtain z where z: "z \<in> set R3" "\<not> is_sentinel z" "eid z = eid y"
        by (auto simp: image_iff)
      show "eid y \<noteq> i"
      proof
        assume "eid y = i"
        then have "z = x" using uniq z by simp
        then show False using z(2) True by simp
      qed
    qed
    then show ?thesis using True nf by (auto simp: count_modified_all)
  next
    case False
    then have "i \<in> eid ` {x \<in> set R3. \<not> is_sentinel x}" using x by blast
    then have "i \<in> eid ` set F" unfolding ids .
    then obtain z where "z \<in> set F" "eid z = i" by (auto simp: image_iff)
    then have "z \<in> set (endsong_modified (rerun F d))" by simp
    then have "count_modified (rerun F d) i \<noteq> 0"
      using \<open>eid z = i\<close> count_modified_all [of "rerun F d" i] by blast
    then show ?thesis using False by simp
  qed
qed


lemma commit_rerun:
  assumes pk: "distinct (map eid (endsong d))" and rin: "r \<in> set (endsong d)"
    and ids: "eid ` set F = eid ` {x \<in> set R3. \<not> is_sentinel x}"
    and dist: "distinct (map eid R3)"
    and d': "d' = (if count_modified d (eid r) = 0 then insert_resolved d (eid r) t a else d)"
    and sub': "set (endsong_modified d') \<subseteq> set R3"
  shows "(if count_modified (rerun F d) (eid r) = 0
          then insert_resolved (rerun F d) (eid r) t a else rerun F d) = rerun F d'"
proof (cases "count_modified d (eid r) = 0")
  case True
  let ?x = "set_names t a r"
  have dd: "d' = d\<lparr>endsong_modified := endsong_modified d @ [?x]\<rparr>"
    using d' True insert_resolved_single [OF pk rin True] by simp
  then have x: "?x \<in> set R3" and sub: "set (endsong_modified d) \<subseteq> set R3"
    using sub' by auto
  have c: "(count_modified (rerun F d) (eid r) = 0) = is_sentinel ?x"
    using count_rerun(2) [OF ids dist sub x _ True] by simp
  show ?thesis
  proof (cases "is_sentinel ?x")
    case True
    then have c0: "count_modified (rerun F d) (eid r) = 0" using c by simp
    have "insert_resolved (rerun F d) (eid r) t a
        = (rerun F d)\<lparr>endsong_modified := endsong_modified (rerun F d) @ [?x]\<rparr>"
      by (rule insert_resolved_single) (use pk rin c0 in simp_all)
    then show ?thesis using c0 True unfolding dd rerun_append by simp
  next
    case False
    then show ?thesis using c unfolding dd rerun_append by simp
  qed
next
  case False
  then have dd: "d' = d" using d' by simp
  then have "set (endsong_modified d) \<subseteq> set R3" using sub' by simp
  then have "count_modified (rerun F d) (eid r) \<noteq> 0"
    using count_rerun(1) [OF ids dist _ False] by simp
  then show ?thesis using dd by simp
qed

lemma matches_of_rerun [simp]: "matches_of (rerun F d) = matches_of d"
  by (rule ext) (rule matches_of_history, simp)

lemma cluster_key_rerun [simp]: "cluster_key (rerun F d) = cluster_key d"
  by (rule ext) (simp add: cluster_key_def)

lemma initial_step_frame:
  assumes "initial_step (d, m, n) row = Inr (d', m', n')"
  shows "history d' = history d \<and> endsong d' = endsong d"
proof (cases "ts row")
  case None
  then show ?thesis using assms by (simp add: initial_step_None)
next
  case (Some t)
  show ?thesis
    using assms unfolding initial_step_eq [OF Some] by (auto split: if_splits)
qed

lemma initial_step_rerun:
  assumes pk: "distinct (map eid (endsong d))" and rin: "row \<in> set (endsong d)"
    and ids: "eid ` set F = eid ` {x \<in> set R3. \<not> is_sentinel x}"
    and dist: "distinct (map eid R3)"
    and step: "initial_step (d, m, n) row = Inr (d', m', n')"
    and sub': "set (endsong_modified d') \<subseteq> set R3"
  shows "initial_step (rerun F d, m, n) row = Inr (rerun F d', m', n')"
proof (cases "ts row")
  case None
  then show ?thesis using step by (simp add: initial_step_None)
next
  case (Some t)
  show ?thesis
  proof (cases "length (matches_of d row) = 1")
    case True
    let ?t = "trackName (hd (matches_of d row))" and ?a = "artistName (hd (matches_of d row))"
    have d': "d' = (if count_modified d (eid row) = 0 then insert_resolved d (eid row) ?t ?a else d)"
      and mn: "m' = m" "n' = n"
      using step True unfolding initial_step_eq [OF Some] by (auto split: if_splits)
    from commit_rerun [OF pk rin ids dist d' sub']
    show ?thesis
      using True mn unfolding initial_step_eq [OF Some] by (auto split: if_splits)
  next
    case False
    then have "d' = d" using step unfolding initial_step_eq [OF Some] by (auto split: if_splits)
    then show ?thesis
      using step False unfolding initial_step_eq [OF Some] by (auto split: if_splits)
  qed
qed

lemma for_each_back:
  assumes "for_each f xs s = Inr s'" and "Q s'"
    and bk: "\<And>s x s'. x \<in> set xs \<Longrightarrow> f s x = Inr s' \<Longrightarrow> Q s' \<Longrightarrow> Q s"
  shows "Q s"
proof -
  have "for_each f ys s = Inr s' \<Longrightarrow> set ys \<subseteq> set xs \<Longrightarrow> Q s" for ys s
  proof (induction ys arbitrary: s)
    case Nil
    then show ?case using assms(2) by simp
  next
    case (Cons x ys)
    from Cons.prems(1) obtain s1 where s1: "f s x = Inr s1" and rest: "for_each f ys s1 = Inr s'"
      by (auto split: sum.splits)
    have "Q s1" using Cons.IH [OF rest] Cons.prems(2) by simp
    then show ?case using bk [of x s s1] s1 Cons.prems(2) by simp
  qed
  then show ?thesis using assms(1) by blast
qed

lemma for_each_sim:
  assumes "for_each f xs s = Inr s'" and "Q s'" and "R s t"
    and sim: "\<And>s t x s'. x \<in> set xs \<Longrightarrow> R s t \<Longrightarrow> f s x = Inr s' \<Longrightarrow> Q s' \<Longrightarrow>
                 \<exists>t'. g t x = Inr t' \<and> R s' t'"
    and bk: "\<And>s x s'. x \<in> set xs \<Longrightarrow> f s x = Inr s' \<Longrightarrow> Q s' \<Longrightarrow> Q s"
  shows "\<exists>t'. for_each g xs t = Inr t' \<and> R s' t'"
proof -
  have "for_each f ys s = Inr s' \<Longrightarrow> R s t \<Longrightarrow> set ys \<subseteq> set xs \<Longrightarrow>
        \<exists>t'. for_each g ys t = Inr t' \<and> R s' t'" for ys s t
  proof (induction ys arbitrary: s t)
    case Nil
    then show ?case by simp
  next
    case (Cons x ys)
    from Cons.prems(1) obtain s1 where s1: "f s x = Inr s1" and rest: "for_each f ys s1 = Inr s'"
      by (auto split: sum.splits)
    have sub: "set ys \<subseteq> set xs" and xin: "x \<in> set xs" using Cons.prems(3) by simp_all
    have "Q s1"
      using rest assms(2)
    proof (rule for_each_back)
      fix s x s' assume "x \<in> set ys" "f s x = Inr s'" "Q s'"
      then show "Q s" using bk [of x s s'] sub by blast
    qed
    then obtain t1 where t1: "g t x = Inr t1" "R s1 t1"
      using sim [OF xin Cons.prems(2) s1] by blast
    from Cons.IH [OF rest t1(2) sub] obtain t' where
      "for_each g ys t1 = Inr t'" "R s' t'" by blast
    then show ?case using t1(1) by simp
  qed
  then show ?thesis using assms(1,3) by blast
qed

lemma extends_subset: "extends d d' \<Longrightarrow> set (endsong_modified d) \<subseteq> set (endsong_modified d')"
  by (auto simp: extends_def)

lemma ios_rows_rerun [simp]: "ios_rows (rerun F d) = ios_rows d"
  by (simp add: ios_rows_def)

lemma initial_pass_rerun:
  assumes pk: "distinct (map eid (endsong d))"
    and ids: "eid ` set F = eid ` {x \<in> set R3. \<not> is_sentinel x}"
    and dist: "distinct (map eid R3)"
    and run: "initial_pass d = Inr (d1, multiple, none)"
    and sub: "set (endsong_modified d1) \<subseteq> set R3"
  shows "initial_pass (rerun F d) = Inr (rerun F d1, multiple, none)"
proof -
  let ?Q = "\<lambda>s. case s of (d', m, n) \<Rightarrow>
      set (endsong_modified d') \<subseteq> set R3 \<and> endsong d' = endsong d"
  let ?R = "\<lambda>s t. case s of (d', m, n) \<Rightarrow> t = (rerun F d', m, n)"
  have en1: "endsong d1 = endsong d"
    using extends_initial_pass [OF pk run] by (simp add: extends_def)
  have "\<exists>t'. for_each initial_step (ios_rows d) (rerun F d, [], []) = Inr t'
      \<and> ?R (d1, multiple, none) t'"
  proof (rule for_each_sim [where Q = ?Q and R = ?R and f = initial_step])
    show "for_each initial_step (ios_rows d) (d, [], []) = Inr (d1, multiple, none)"
      using run by (simp add: initial_pass_def)
    show "?Q (d1, multiple, none)" using sub en1 by simp
    show "?R (d, [], []) (rerun F d, [], [])" by simp
  next
    fix s t x s'
    assume x: "x \<in> set (ios_rows d)" and R: "?R s t" and step: "initial_step s x = Inr s'"
      and Q: "?Q s'"
    obtain d' m n where s: "s = (d', m, n)" by (cases s)
    obtain d'' m' n' where s': "s' = (d'', m', n')" by (cases s')
    have en: "endsong d' = endsong d"
      using initial_step_frame [OF step [unfolded s s']] Q s' by simp
    have "initial_step (rerun F d', m, n) x = Inr (rerun F d'', m', n')"
      using step Q x unfolding s s'
      by (intro initial_step_rerun [OF _ _ ids dist]) (simp_all add: en pk ios_rows_def)
    then show "\<exists>t'. initial_step t x = Inr t' \<and> ?R s' t'"
      using R s s' by simp
  next
    fix s x s'
    assume x: "x \<in> set (ios_rows d)" and step: "initial_step s x = Inr s'" and Q: "?Q s'"
    obtain d' m n where s: "s = (d', m, n)" by (cases s)
    obtain d'' m' n' where s': "s' = (d'', m', n')" by (cases s')
    have en: "endsong d' = endsong d"
      using initial_step_frame [OF step [unfolded s s']] Q s' by simp
    have "extends d' d''"
      using step x unfolding s s'
      by (intro extends_initial_step [of d' x m n d'' m' n']) (simp_all add: en pk ios_rows_def)
    then show "?Q s" using Q en extends_subset unfolding s s' by auto
  qed
  then show ?thesis by (simp add: initial_pass_def)
qed


lemma resolve_pair_rerun:
  assumes pk: "distinct (map eid (endsong d))" and i: "i \<in> eid ` set (ios_rows d)"
    and ids: "eid ` set F = eid ` {x \<in> set R3. \<not> is_sentinel x}"
    and dist: "distinct (map eid R3)"
    and sub': "set (endsong_modified (resolve_pair d (h, i))) \<subseteq> set R3"
  shows "resolve_pair (rerun F d) (h, i) = rerun F (resolve_pair d (h, i))"
proof -
  from ios_row_of_id [OF pk i] obtain r where r: "r \<in> set (ios_rows d)" "eid r = i" by blast
  then have rin: "r \<in> set (endsong d)" by (simp add: ios_rows_def)
  have d': "resolve_pair d (h, i)
      = (if count_modified d (eid r) = 0
         then insert_resolved d (eid r) (trackName h) (artistName h) else d)"
    using r(2) by (simp add: resolve_pair_def)
  have l: "resolve_pair (rerun F d) (h, i)
      = (if count_modified (rerun F d) (eid r) = 0
         then insert_resolved (rerun F d) (eid r) (trackName h) (artistName h) else rerun F d)"
    using r(2) by (simp add: resolve_pair_def)
  show ?thesis unfolding l by (rule commit_rerun [OF pk rin ids dist d' sub'])
qed

lemma resolve_pairs_rerun:
  assumes pk: "distinct (map eid (endsong d))" and "snd ` set ps \<subseteq> eid ` set (ios_rows d)"
    and ids: "eid ` set F = eid ` {x \<in> set R3. \<not> is_sentinel x}"
    and dist: "distinct (map eid R3)"
    and "set (endsong_modified (foldl resolve_pair d ps)) \<subseteq> set R3"
  shows "foldl resolve_pair (rerun F d) ps = rerun F (foldl resolve_pair d ps)"
  using assms(1,2,5)
proof (induction ps arbitrary: d)
  case Nil
  then show ?case by simp
next
  case (Cons p ps)
  obtain h i where p: "p = (h, i)" by (cases p)
  let ?d1 = "resolve_pair d (h, i)"
  have i: "i \<in> eid ` set (ios_rows d)" using Cons.prems(2) p by auto
  have en: "endsong ?d1 = endsong d" by simp
  have pk1: "distinct (map eid (endsong ?d1))" using Cons.prems(1) by simp
  have ps: "snd ` set ps \<subseteq> eid ` set (ios_rows ?d1)"
    using Cons.prems(2) by (auto simp: ios_rows_extends [OF en])
  have fin: "set (endsong_modified (foldl resolve_pair ?d1 ps)) \<subseteq> set R3"
    using Cons.prems(3) p by simp
  have "extends ?d1 (foldl resolve_pair ?d1 ps)" using pk1 ps by (rule extends_resolve_pairs)
  then have "set (endsong_modified ?d1) \<subseteq> set R3" using fin extends_subset by blast
  then have "resolve_pair (rerun F d) (h, i) = rerun F ?d1"
    using Cons.prems(1) i ids dist by (intro resolve_pair_rerun)
  then show ?case using Cons.IH [OF pk1 ps fin] p by simp
qed

lemma cluster_history_rerun [simp]: "cluster_history (rerun F d) = cluster_history d"
  by (rule ext) (simp add: cluster_history_def)

lemma cluster_endsong_rerun [simp]: "cluster_endsong (rerun F d) = cluster_endsong d"
  by (rule ext)+ (simp add: cluster_endsong_def)

lemma multiple_step_frame:
  assumes "multiple_step v d entry = Inr d'"
  shows "history d' = history d \<and> endsong d' = endsong d"
  using appends_multiple_step [OF assms] by (simp add: appends_def)

lemma multiple_step_rerun:
  assumes pk: "distinct (map eid (endsong d))" and q: "quote_free d"
    and ids: "eid ` set F = eid ` {x \<in> set R3. \<not> is_sentinel x}"
    and dist: "distinct (map eid R3)"
    and step: "multiple_step v d entry = Inr d'"
    and sub': "set (endsong_modified d') \<subseteq> set R3"
  shows "multiple_step v (rerun F d) entry = Inr (rerun F d')"
proof -
  from q step obtain h0 hs t ms where
    c: "cluster_history d entry = h0 # hs" "endTime h0 = Some t" "msPlayed h0 = Some ms"
      "CHR 0x27 \<notin> set t"
    and d': "d' = foldl resolve_pair d (zip (h0 # hs) (cluster_endsong d ms (ts_like t)))"
    by (rule multiple_step_plain)
  let ?ps = "zip (h0 # hs) (cluster_endsong d ms (ts_like t))"
  have ps: "snd ` set ?ps \<subseteq> eid ` set (ios_rows d)"
    using cluster_endsong_ios [of d ms "ts_like t"] by (auto dest: set_zip_rightD)
  have "foldl resolve_pair (rerun F d) ?ps = rerun F (foldl resolve_pair d ?ps)"
    using pk ps ids dist sub' [unfolded d'] by (rule resolve_pairs_rerun)
  then show ?thesis using c d' by (simp add: multiple_step_def)
qed

lemma multiple_pass_rerun:
  assumes pk: "distinct (map eid (endsong d))" and q: "quote_free d"
    and ids: "eid ` set F = eid ` {x \<in> set R3. \<not> is_sentinel x}"
    and dist: "distinct (map eid R3)"
    and run: "multiple_pass e d multiple = Inr d2"
    and sub: "set (endsong_modified d2) \<subseteq> set R3"
  shows "multiple_pass e (rerun F d) multiple = Inr (rerun F d2)"
proof -
  let ?Q = "\<lambda>d'. set (endsong_modified d') \<subseteq> set R3 \<and> endsong d' = endsong d
                \<and> history d' = history d"
  let ?R = "\<lambda>d' t. t = rerun F d'"
  have en2: "endsong d2 = endsong d" "history d2 = history d"
    using appends_multiple_pass [OF run] by (simp_all add: appends_def)
  have "\<exists>t'. for_each (multiple_step e) (iter_multiple e multiple) (rerun F d) = Inr t' \<and> ?R d2 t'"
  proof (rule for_each_sim [where Q = ?Q and R = ?R and f = "multiple_step e"])
    show "for_each (multiple_step e) (iter_multiple e multiple) d = Inr d2"
      using run by (simp add: multiple_pass_def)
    show "?Q d2" using sub en2 by simp
    show "?R d (rerun F d)" by simp
  next
    fix s t x s'
    assume R: "?R s t" and step: "multiple_step e s x = Inr s'" and Q: "?Q s'"
    have en: "endsong s = endsong d" "history s = history d"
      using multiple_step_frame [OF step] Q by simp_all
    have qs: "quote_free s" using q quote_free_cong [OF en(2)] by simp
    have "multiple_step e (rerun F s) x = Inr (rerun F s')"
      using step Q by (intro multiple_step_rerun [OF _ qs ids dist]) (simp_all add: en pk)
    then show "\<exists>t'. multiple_step e t x = Inr t' \<and> ?R s' t'" using R by simp
  next
    fix s x s'
    assume step: "multiple_step e s x = Inr s'" and Q: "?Q s'"
    have en: "endsong s = endsong d" "history s = history d"
      using multiple_step_frame [OF step] Q by simp_all
    have qs: "quote_free s" using q quote_free_cong [OF en(2)] by simp
    have "extends s s'" using step qs by (intro extends_multiple_step [of s e x]) (simp_all add: en pk)
    then show "?Q s" using Q en extends_subset by auto
  qed
  then show ?thesis by (simp add: multiple_pass_def)
qed

lemma duration_matches_rerun [simp]: "duration_matches (rerun F d) = duration_matches d"
  by (rule ext) (simp add: duration_matches_def)

lemma none_step_rerun:
  assumes pk: "distinct (map eid (endsong d))" and en: "entry \<in> eid ` set (ios_rows d)"
    and ids: "eid ` set F = eid ` {x \<in> set R3. \<not> is_sentinel x}"
    and dist: "distinct (map eid R3)"
    and step: "none_step e (d, m, u) entry = Inr (d', m', u')"
    and sub': "set (endsong_modified d') \<subseteq> set R3"
  shows "\<exists>m2' u2'. none_step e (rerun F d, m2, u2) entry = Inr (rerun F d', m2', u2')"
proof -
  from ios_row_of_id [OF pk en] obtain r where r: "r \<in> set (ios_rows d)" "eid r = entry"
    by blast
  then have rin: "r \<in> set (endsong d)" by (simp add: ios_rows_def)
  have "extends d d'" using pk en step by (rule extends_none_step)
  then have sub: "set (endsong_modified d) \<subseteq> set R3" using sub' extends_subset by blast
  have new: "is_sentinel x = (count_modified (rerun F d) entry = 0)"
    if "d' = d\<lparr>endsong_modified := endsong_modified d @ [x]\<rparr>" "eid x = entry"
      "count_modified d entry = 0" for x
  proof -
    have "x \<in> set R3" using that(1) sub' by auto
    from count_rerun(2) [OF ids dist sub this that(2,3)] show ?thesis by simp
  qed
  show ?thesis
  proof (cases "count_modified (rerun F d) entry = 0")
    case False
    then have l: "none_step e (rerun F d, m2, u2) entry = Inr (rerun F d, m2, u2)"
      by (simp add: none_step.simps)
    have "rerun F d' = rerun F d"
      using none_step_cases [OF pk en step] new False by (auto simp: rerun_append)
    then show ?thesis using l by simp
  next
    case True
    then have c: "count_modified d (eid r) = 0" using count_rerun(1) [OF ids dist sub] r(2) by blast
    have c2: "count_modified (rerun F d) (eid r) = 0" using True r(2) by simp
    have pk2: "distinct (map eid (endsong (rerun F d)))" and rin2: "r \<in> set (endsong (rerun F d))"
      using pk rin by simp_all
    note eq1 = none_step_eq [OF pk rin c, of e m u, unfolded r(2)]
    note eq2 = none_step_eq [OF pk2 rin2 c2, of e m2 u2, unfolded r(2)]
    have s: "is_sentinel (set_names t a r)"
      if "d' = d\<lparr>endsong_modified := endsong_modified d @ [set_names t a r]\<rparr>" for t a
      using new [OF that] r(2) c True by simp
    show ?thesis
      using step s unfolding eq1 eq2
      by (auto simp: Let_def rerun_append split: if_splits option.splits)
  qed
qed


lemma none_pass_rerun:
  assumes pk: "distinct (map eid (endsong d))"
    and xs: "set (iter_none e none) \<subseteq> eid ` set (ios_rows d)"
    and ids: "eid ` set F = eid ` {x \<in> set R3. \<not> is_sentinel x}"
    and dist: "distinct (map eid R3)"
    and run: "none_pass e d none = Inr (d3, m, u)"
    and sub: "set (endsong_modified d3) \<subseteq> set R3"
  shows "\<exists>m' u'. none_pass e (rerun F d) none = Inr (rerun F d3, m', u')"
proof -
  let ?Q = "\<lambda>s. case s of (d', m, u) \<Rightarrow>
              set (endsong_modified d') \<subseteq> set R3 \<and> endsong d' = endsong d"
  let ?R = "\<lambda>s t. case s of (d', m, u) \<Rightarrow> fst t = rerun F d'"
  have fr: "endsong d3 = endsong d"
  proof -
    have "case (d3, m, u) of (d', m, u) \<Rightarrow> endsong d' = endsong d"
    proof (rule for_each_preserves [where f = "none_step e"])
      show "for_each (none_step e) (iter_none e none) (d, [], []) = Inr (d3, m, u)"
        using run by (simp add: none_pass_def)
      show "case (d, [], []) of (d', m, u) \<Rightarrow> endsong d' = endsong d" by simp
    next
      fix s x s'
      assume "case s of (d', m, u) \<Rightarrow> endsong d' = endsong d" "none_step e s x = Inr s'"
      then show "case s' of (d', m, u) \<Rightarrow> endsong d' = endsong d"
        using none_step_frame [of e "fst s" "fst (snd s)" "snd (snd s)" x
            "fst s'" "fst (snd s')" "snd (snd s')"]
        by (cases s, cases s') simp
    qed
    then show ?thesis by simp
  qed
  have "\<exists>t'. for_each (none_step e) (iter_none e none) (rerun F d, [], []) = Inr t'
           \<and> ?R (d3, m, u) t'"
  proof (rule for_each_sim [where Q = ?Q and R = ?R and f = "none_step e"])
    show "for_each (none_step e) (iter_none e none) (d, [], []) = Inr (d3, m, u)"
      using run by (simp add: none_pass_def)
    show "?Q (d3, m, u)" using sub fr by simp
    show "?R (d, [], []) (rerun F d, [], [])" by simp
  next
    fix s x s' and t :: "db \<times> int list \<times> int list"
    assume x: "x \<in> set (iter_none e none)" and R: "?R s t"
      and step: "none_step e s x = Inr s'" and Q: "?Q s'"
    obtain d' m' u' where s: "s = (d', m', u')" by (cases s)
    obtain d'' m'' u'' where s': "s' = (d'', m'', u'')" by (cases s')
    obtain m2 u2 where t: "t = (rerun F d', m2, u2)" using R s by (cases t) simp
    have st: "none_step e (d', m', u') x = Inr (d'', m'', u'')" using step s s' by simp
    have en: "endsong d' = endsong d" using none_step_frame [OF st] Q s' by simp
    have xi: "x \<in> eid ` set (ios_rows d')" using x xs by (auto simp: ios_rows_extends [OF en])
    have "\<exists>m2' u2'. none_step e (rerun F d', m2, u2) x = Inr (rerun F d'', m2', u2')"
      using st Q s' by (intro none_step_rerun [OF _ xi ids dist]) (simp_all add: en pk)
    then show "\<exists>t'. none_step e t x = Inr t' \<and> ?R s' t'" using t s' by auto
  next
    fix s x s'
    assume x: "x \<in> set (iter_none e none)" and step: "none_step e s x = Inr s'" and Q: "?Q s'"
    obtain d' m' u' where s: "s = (d', m', u')" by (cases s)
    obtain d'' m'' u'' where s': "s' = (d'', m'', u'')" by (cases s')
    have st: "none_step e (d', m', u') x = Inr (d'', m'', u'')" using step s s' by simp
    have en: "endsong d' = endsong d" using none_step_frame [OF st] Q s' by simp
    have xi: "x \<in> eid ` set (ios_rows d')" using x xs by (auto simp: ios_rows_extends [OF en])
    have "extends d' d''" using st by (intro extends_none_step [OF _ xi]) (simp_all add: en pk)
    then show "?Q s" using Q en s s' extends_subset by auto
  qed
  then show ?thesis by (auto simp: none_pass_def)
qed

lemma resolvers_rerun:
  assumes pk: "distinct (map eid (endsong d))" and it: "iterates_sets e"
    and q: "quote_free d"
    and ids: "eid ` set F = eid ` {x \<in> set (endsong_modified d3). \<not> is_sentinel x}"
    and dist: "distinct (map eid (endsong_modified d3))"
    and run: "resolvers e d = Inr (d3, m, u)"
  shows "\<exists>m' u'. resolvers e (rerun F d) = Inr (rerun F d3, m', u')"
proof -
  from run obtain d1 multiple none d2 where 1: "initial_pass d = Inr (d1, multiple, none)"
    and 2: "multiple_pass e d1 multiple = Inr d2"
    and 3: "none_pass e d2 none = Inr (d3, m, u)"
    by (rule resolvers_split)
  note st = resolvers_stages [OF pk it 1 2 3]
  have e3: "extends d2 d3" using st(3) by (simp add: none_inv_def)
  have s2: "set (endsong_modified d2) \<subseteq> set (endsong_modified d3)"
    using e3 by (rule extends_subset)
  have "set (endsong_modified d1) \<subseteq> set (endsong_modified d2)"
    using st(2) by (auto simp: appends_def)
  then have s1: "set (endsong_modified d1) \<subseteq> set (endsong_modified d3)"
    using s2 by blast
  have en1: "endsong d1 = endsong d" "history d1 = history d"
    using st(1) by (simp_all add: extends_def)
  have en2: "endsong d2 = endsong d" using st(2) en1 by (simp add: appends_def)
  have q1: "quote_free d1" using q quote_free_cong [OF en1(2)] by simp
  have pk1: "distinct (map eid (endsong d1))" and pk2: "distinct (map eid (endsong d2))"
    using pk en1 en2 by simp_all
  have r1: "initial_pass (rerun F d) = Inr (rerun F d1, multiple, none)"
    using pk ids dist 1 s1 by (rule initial_pass_rerun)
  have r2: "multiple_pass e (rerun F d1) multiple = Inr (rerun F d2)"
    using pk1 q1 ids dist 2 s2 by (rule multiple_pass_rerun)
  have xs: "set (iter_none e none) \<subseteq> eid ` set (ios_rows d2)"
    unfolding st(4) ios_rows_extends [OF en2] by auto
  from none_pass_rerun [OF pk2 xs ids dist 3 subset_refl]
  obtain m' u' where "none_pass e (rerun F d2) none = Inr (rerun F d3, m', u')" by blast
  then show ?thesis using r1 r2 by (simp add: resolvers_def)
qed

lemma names_found_data [simp]: "names (found_data e r) = names r"
  and eid_found_data [simp]: "eid (found_data e r) = eid r"
  by (simp_all add: found_data_def names_def split: search_result.splits)

lemma names_searched [simp]: "names (searched e K r) = names r"
  and eid_searched [simp]: "eid (searched e K r) = eid r"
  by (simp_all add: searched_def)

lemma names_enrich [simp]: "names (enrich d r) = names r"
  by (simp add: enrich_def split: list.splits)

lemma names_fix_row [simp]: "names (fix_row sel fx r) = names r"
  by (simp add: fix_row_def names_def split: option.splits)

lemma names_fixed_row [simp]: "names (fixed_row r) = names r"
  and eid_fixed_row [simp]: "eid (fixed_row r) = eid r"
  by (simp_all add: fixed_row_def eid_fix_row)

lemma names_settled [simp]: "names (settled e d K r) = names r"
  and eid_settled [simp]: "eid (settled e d K r) = eid r"
  by (simp_all add: settled_def)

lemma found_data_idem: "found_data e (found_data e r) = found_data e r"
proof -
  have "names (found_data e r) = names r" by simp
  then show ?thesis
    by (cases "search e (names r)") (simp_all add: found_data_def)
qed

lemma searched_insert: "searched e K (searched e {k} r) = searched e (insert k K) r"
  by (auto simp: searched_def found_data_idem)

lemma search_step_searched:
  assumes "search_step e (rows, sk) (k, v) = Inr (rows', sk')"
  shows "rows' = map (searched e {k}) rows" and "search e k \<noteq> SearchRaised"
proof -
  have eq: "(sql_eq (master_metadata_track_name r) (fst k)
             \<and> sql_eq (master_metadata_album_artist_name r) (snd k))
          = (names r \<in> {k} \<and> fst (names r) \<noteq> None \<and> snd (names r) \<noteq> None)" for r
    by (cases k) (auto simp: sql_eq_def names_def)
  show "search e k \<noteq> SearchRaised" using assms by (auto split: search_result.splits)
  show "rows' = map (searched e {k}) rows"
  proof (cases "search e k")
    case (Accepted al link)
    then have "rows' = map (\<lambda>r. if names r \<in> {k} \<and> fst (names r) \<noteq> None \<and> snd (names r) \<noteq> None
                  then r\<lparr>master_metadata_album_album_name := Some al,
                         spotify_track_uri := Some (strip_url link)\<rparr>
                  else r) rows"
      using assms by (simp add: eq)
    also have "\<dots> = map (searched e {k}) rows"
      using Accepted by (intro map_cong refl) (auto simp: searched_def found_data_def)
    finally show ?thesis .
  next
    case NoResult
    then have "rows' = rows" using assms by simp
    moreover have "map (searched e {k}) rows = rows"
      using NoResult by (intro map_idI) (auto simp: searched_def found_data_def)
    ultimately show ?thesis by simp
  next
    case Rejected
    then have "rows' = rows" using assms by simp
    moreover have "map (searched e {k}) rows = rows"
      using Rejected by (intro map_idI) (auto simp: searched_def found_data_def)
    ultimately show ?thesis by simp
  next
    case SearchRaised
    then show ?thesis using assms by simp
  qed
qed

lemma search_step_succeeds:
  "search e k \<noteq> SearchRaised \<Longrightarrow> \<exists>rows' sk'. search_step e (rows, sk) (k, v) = Inr (rows', sk')"
  by (cases "search e k") simp_all

lemma searched_empty [simp]: "searched e {} r = r"
  by (simp add: searched_def)

lemma search_loop:
  assumes "for_each (search_step e) ne (rows, sk) = Inr (rows', sk')"
  shows "rows' = map (searched e (fst ` set ne)) rows"
    and "\<forall>k\<in>fst ` set ne. search e k \<noteq> SearchRaised"
  using assms
proof (induction ne arbitrary: rows sk)
  case Nil
  { case 1 then show ?case by simp }
  { case 2 then show ?case by simp }
next
  case (Cons kv ne)
  obtain k v where kv: "kv = (k, v)" by (cases kv)
  { case 1
    then obtain rows1 sk1 where s: "search_step e (rows, sk) (k, v) = Inr (rows1, sk1)"
      and r: "for_each (search_step e) ne (rows1, sk1) = Inr (rows', sk')"
      by (auto simp: kv split: sum.splits)
    have "rows' = map (searched e (fst ` set ne)) (map (searched e {k}) rows)"
      using Cons.IH(1) [OF r] search_step_searched(1) [OF s] by simp
    then show ?case by (simp add: kv searched_insert comp_def) }
  { case 2
    then obtain rows1 sk1 where s: "search_step e (rows, sk) (k, v) = Inr (rows1, sk1)"
      and r: "for_each (search_step e) ne (rows1, sk1) = Inr (rows', sk')"
      by (auto simp: kv split: sum.splits)
    show ?case using Cons.IH(2) [OF r] search_step_searched(2) [OF s] by (simp add: kv) }
qed

lemma search_loop_succeeds:
  assumes "\<forall>k\<in>fst ` set ne. search e k \<noteq> SearchRaised"
  shows "\<exists>rows' sk'. for_each (search_step e) ne (rows, sk) = Inr (rows', sk')"
  using assms
proof (induction ne arbitrary: rows sk)
  case Nil
  then show ?case by simp
next
  case (Cons kv ne)
  obtain k v where kv: "kv = (k, v)" by (cases kv)
  have "search e k \<noteq> SearchRaised" using Cons.prems kv by simp
  from search_step_succeeds [OF this]
  obtain rows1 sk1 where s: "search_step e (rows, sk) (k, v) = Inr (rows1, sk1)" by blast
  have "\<exists>rows' sk'. for_each (search_step e) ne (rows1, sk1) = Inr (rows', sk')"
    using Cons.prems by (intro Cons.IH) simp
  then show ?case using s kv by simp
qed


lemma fix_row_form: "\<exists>u. fix_row sel fx r = r\<lparr>spotify_track_uri := u\<rparr>"
proof (cases "fix_row sel fx r = r")
  case True
  then have "fix_row sel fx r = r\<lparr>spotify_track_uri := spotify_track_uri r\<rparr>" by simp
  then show ?thesis ..
next
  case False
  then show ?thesis by (auto simp: fix_row_def split: option.splits if_splits)
qed

lemma fixed_row_form: "\<exists>u. fixed_row r = r\<lparr>spotify_track_uri := u\<rparr>"
proof -
  obtain u where 1: "fix_row like_https (\<lambda>uri. canonical (strip_url uri)) r
      = r\<lparr>spotify_track_uri := u\<rparr>"
    using fix_row_form by blast
  obtain v where "fix_row not_like_spotify canonical (r\<lparr>spotify_track_uri := u\<rparr>)
      = r\<lparr>spotify_track_uri := u, spotify_track_uri := v\<rparr>"
    using fix_row_form by blast
  then have "fixed_row r = r\<lparr>spotify_track_uri := v\<rparr>" by (simp add: fixed_row_def 1)
  then show ?thesis ..
qed

lemma uri_fix_row_None:
  "(spotify_track_uri (fix_row sel fx r) = None) = (spotify_track_uri r = None)"
  by (simp add: fix_row_def split: option.splits)

lemma needs_data_fixed_row [simp]: "needs_data (fixed_row r) = needs_data r"
proof -
  have "(spotify_track_uri (fixed_row r) = None) = (spotify_track_uri r = None)"
    by (simp add: fixed_row_def uri_fix_row_None)
  moreover have "master_metadata_album_album_name (fixed_row r) = master_metadata_album_album_name r"
    using fixed_row_form [of r] by (elim exE) simp
  ultimately show ?thesis by (simp add: needs_data_def)
qed

lemma fixed_row_idem [simp]: "fixed_row (fixed_row r) = fixed_row r"
proof (cases "spotify_track_uri r")
  case None
  then show ?thesis by (simp add: fixed_row_def fix_row_def)
next
  case (Some u)
  show ?thesis
  proof (cases "like_https u")
    case True
    then have "fixed_row r = r\<lparr>spotify_track_uri := Some (canonical (strip_url u))\<rparr>"
      using Some by (simp add: fixed_row_def fix_row_def like_spotify_canonical)
    then show ?thesis by (simp add: fixed_row_canonical)
  next
    case False
    show ?thesis
    proof (cases "not_like_spotify u")
      case True
      then have "fixed_row r = r\<lparr>spotify_track_uri := Some (canonical u)\<rparr>"
        using Some False by (simp add: fixed_row_def fix_row_def)
      then show ?thesis by (simp add: fixed_row_canonical)
    next
      case nl: False
      then have "fixed_row r = r" using Some False by (simp add: fixed_row_def fix_row_def)
      then show ?thesis by simp
    qed
  qed
qed

lemma track_names_fixed_row [simp]:
  "master_metadata_track_name (fixed_row r) = master_metadata_track_name r"
  "master_metadata_album_artist_name (fixed_row r) = master_metadata_album_artist_name r"
  using names_fixed_row [of r] by (simp_all add: names_def)

lemma set_data_uri [simp]: "set_data (eid r) x (r\<lparr>spotify_track_uri := u\<rparr>) = set_data (eid r) x r"
  by (simp add: set_data_def)

lemma set_data_own: "master_metadata_album_album_name (set_data (eid r) x r) = fst x"
  "spotify_track_uri (set_data (eid r) x r) = snd x"
  by (simp_all add: set_data_def)

lemma set_data_idem [simp]: "set_data (eid r) x (set_data (eid r) x r) = set_data (eid r) x r"
  by (simp add: set_data_def)

lemma enrich_fixed_enrich: "fixed_row (enrich d (fixed_row (enrich d r))) = fixed_row (enrich d r)"
proof (cases "needs_data r")
  case False
  then show ?thesis by (simp add: enrich_def)
next
  case True
  show ?thesis
  proof (cases "track_data d (master_metadata_track_name r) (master_metadata_album_artist_name r)")
    case Nil
    then show ?thesis using True by (simp add: enrich_def)
  next
    case (Cons x xs)
    let ?r1 = "set_data (eid r) x r"
    have 1: "enrich d r = ?r1" using True Cons by (simp add: enrich_def)
    have n1: "master_metadata_track_name ?r1 = master_metadata_track_name r"
      "master_metadata_album_artist_name ?r1 = master_metadata_album_artist_name r"
      using names_set_data [of "eid r" x r] by (simp_all add: names_def)
    obtain u where u: "fixed_row ?r1 = ?r1\<lparr>spotify_track_uri := u\<rparr>"
      using fixed_row_form by blast
    have e: "eid ?r1 = eid r" by simp
    show ?thesis
    proof (cases "needs_data ?r1")
      case False
      then show ?thesis unfolding 1 by (simp add: enrich_def)
    next
      case nd: True
      have "enrich d (fixed_row ?r1) = set_data (eid (fixed_row ?r1)) x (fixed_row ?r1)"
        using nd Cons by (simp add: enrich_def n1)
      also have "\<dots> = set_data (eid ?r1) x (?r1\<lparr>spotify_track_uri := u\<rparr>)"
        unfolding u by simp
      also have "\<dots> = set_data (eid ?r1) x ?r1" by (rule set_data_uri)
      also have "\<dots> = ?r1" unfolding e by simp
      finally show ?thesis unfolding 1 by simp
    qed
  qed
qed

lemma found_data_other:
  "\<forall>al link. search e (names r) \<noteq> Accepted al link \<Longrightarrow> found_data e r = r"
  by (cases "search e (names r)") (simp_all add: found_data_def)

lemma settled_idem:
  assumes "K2 \<subseteq> K1"
  shows "settled e d K2 (settled e d K1 r) = settled e d K1 r"
proof (cases "names r \<in> K1 \<and> fst (names r) \<noteq> None \<and> snd (names r) \<noteq> None
              \<and> (\<exists>al link. search e (names r) = Accepted al link)")
  case True
  then obtain al link where a: "search e (names r) = Accepted al link" by blast
  let ?r1 = "(enrich d r)\<lparr>master_metadata_album_album_name := Some al,
                           spotify_track_uri := Some (strip_url link)\<rparr>"
  have 1: "searched e K1 (enrich d r) = ?r1" using True a by (simp add: searched_def found_data_def)
  obtain u where u: "fixed_row ?r1 = ?r1\<lparr>spotify_track_uri := u\<rparr>"
    using fixed_row_form by blast
  have s1: "settled e d K1 r = fixed_row ?r1" by (simp add: settled_def 1)
  have "\<not> needs_data ?r1" by (simp add: needs_data_def)
  then have 2: "enrich d (fixed_row ?r1) = fixed_row ?r1" by (simp add: enrich_def)
  have n: "names (fixed_row ?r1) = names r" using names_enrich [of d r] by (simp add: names_def)
  have "found_data e (fixed_row ?r1) = ?r1"
    unfolding found_data_def n a unfolding u by simp
  then have "searched e K2 (fixed_row ?r1) = fixed_row ?r1 \<or> searched e K2 (fixed_row ?r1) = ?r1"
    by (simp add: searched_def)
  then have "fixed_row (searched e K2 (fixed_row ?r1)) = fixed_row ?r1" by auto
  then show ?thesis unfolding s1 by (simp add: settled_def 2)
next
  case False
  then have na: "names r \<in> K1 \<and> fst (names r) \<noteq> None \<and> snd (names r) \<noteq> None
      \<Longrightarrow> \<forall>al link. search e (names r) \<noteq> Accepted al link"
    by blast
  let ?r2 = "fixed_row (enrich d r)"
  have "searched e K1 (enrich d r) = enrich d r"
    using na found_data_other [of e "enrich d r"] by (auto simp: searched_def)
  then have s1: "settled e d K1 r = ?r2" by (simp add: settled_def)
  have "searched e K2 (enrich d ?r2) = enrich d ?r2"
    using na assms found_data_other [of e "enrich d ?r2"] by (auto simp: searched_def)
  then show ?thesis unfolding s1 by (simp add: settled_def enrich_fixed_enrich)
qed

lemma unplaced_rerun [simp]: "unplaced (rerun F d) = unplaced d"
  by (rule ext) (simp add: unplaced_def track_data_def)

lemma enrich_rerun [simp]: "enrich (rerun F d) = enrich d"
  by (rule ext) (simp add: enrich_def track_data_def)

lemma track_data_stage_closed:
  assumes dist: "distinct (map eid (endsong_modified d))"
    and st: "track_data_stage e d = Inr (rows, sk)"
  shows "rows = map (\<lambda>r. searched e (pending d (endsong_modified d) - {sentinel}) (enrich d r))
                  (endsong_modified d)"
    and "sentinel \<in> pending d (endsong_modified d)"
    and "\<forall>k\<in>pending d (endsong_modified d) - {sentinel}. search e k \<noteq> SearchRaised"
proof -
  let ?R = "endsong_modified d"
  have a: "add_track_data d [] [] ?R = (map (enrich d) ?R, queue d [] ?R)"
    using add_track_data_distinct [of "[]" ?R d "[]"] dist by simp
  have k: "fst ` set (queue d [] ?R) = pending d ?R"
    by (simp add: queue_keys pending_def)
  from st have s: "sentinel \<in> fst ` set (queue d [] ?R)"
    and l: "for_each (search_step e) (AList.delete sentinel (queue d [] ?R)) (map (enrich d) ?R, [])
            = Inr (rows, sk)"
    by (auto simp: track_data_stage_def a del_sentinel_def split: if_splits)
  have k': "fst ` set (AList.delete sentinel (queue d [] ?R)) = pending d ?R - {sentinel}"
    by (simp add: keys_delete k)
  show "sentinel \<in> pending d ?R" using s k by simp
  show "rows = map (\<lambda>r. searched e (pending d ?R - {sentinel}) (enrich d r)) ?R"
    using search_loop(1) [OF l] unfolding k' by (simp add: comp_def)
  show "\<forall>k\<in>pending d ?R - {sentinel}. search e k \<noteq> SearchRaised"
    using search_loop(2) [OF l] unfolding k' .
qed

lemma track_data_stage_succeeds:
  assumes dist: "distinct (map eid (endsong_modified d))"
    and s: "sentinel \<in> pending d (endsong_modified d)"
    and ok: "\<forall>k\<in>pending d (endsong_modified d) - {sentinel}. search e k \<noteq> SearchRaised"
  shows "\<exists>rows sk. track_data_stage e d = Inr (rows, sk)"
proof -
  let ?R = "endsong_modified d"
  have a: "add_track_data d [] [] ?R = (map (enrich d) ?R, queue d [] ?R)"
    using add_track_data_distinct [of "[]" ?R d "[]"] dist by simp
  have k: "fst ` set (queue d [] ?R) = pending d ?R"
    by (simp add: queue_keys pending_def)
  have k': "fst ` set (AList.delete sentinel (queue d [] ?R)) = pending d ?R - {sentinel}"
    by (simp add: keys_delete k)
  have "\<exists>rows sk. for_each (search_step e) (AList.delete sentinel (queue d [] ?R))
                     (map (enrich d) ?R, []) = Inr (rows, sk)"
    by (rule search_loop_succeeds) (use ok k' in simp)
  then show ?thesis using s k by (simp add: track_data_stage_def a del_sentinel_def)
qed

lemma is_sentinel_settled [simp]: "is_sentinel (settled e d K r) = is_sentinel r"
  by (simp add: is_sentinel_names)

lemma export_closed:
  assumes dist: "distinct (map eid (endsong_modified d))"
    and st: "track_data_stage e d = Inr (rows, sk)"
  shows "delete_unknown (fixup2 (fixup1 rows))
       = map (settled e d (pending d (endsong_modified d) - {sentinel}))
           (filter (\<lambda>x. \<not> is_sentinel x) (endsong_modified d))"
proof -
  let ?R = "endsong_modified d"
  let ?K = "pending d ?R - {sentinel}"
  have "distinct (map eid rows)" using track_data_stage_keys(1) [OF st] dist by simp
  then have "fixup2 (fixup1 rows) = map fixed_row rows" by (rule fixups_distinct)
  also have "\<dots> = map (settled e d ?K) ?R"
    unfolding track_data_stage_closed(1) [OF dist st] by (simp add: settled_def comp_def)
  finally show ?thesis by (simp add: delete_unknown_def filter_map comp_def)
qed

lemma extends_distinct:
  assumes "extends d d'" and "distinct (map eid (endsong_modified d))"
  shows "distinct (map eid (endsong_modified d'))"
proof -
  from assms(1) obtain new where n: "endsong_modified d' = endsong_modified d @ new"
    and f: "\<forall>x\<in>set new. count_modified d (eid x) = 0" and dn: "distinct (map eid new)"
    by (auto simp: extends_def)
  have "set (map eid (endsong_modified d)) \<inter> set (map eid new) = {}"
  proof (rule ccontr)
    assume "set (map eid (endsong_modified d)) \<inter> set (map eid new) \<noteq> {}"
    then obtain i where "i \<in> set (map eid (endsong_modified d))" and "i \<in> set (map eid new)"
      by blast
    then obtain y x where y: "y \<in> set (endsong_modified d)" "eid y = i"
      and x: "x \<in> set new" "eid x = i"
      by auto
    have "count_modified d (eid x) = 0" using f x(1) by simp
    then have "\<forall>y\<in>set (endsong_modified d). eid y \<noteq> eid x" by (simp add: count_modified_all)
    then show False using y x(2) by simp
  qed
  then show ?thesis using assms(2) dn by (simp add: n)
qed

lemma needs_data_found_data: "needs_data (found_data e r) \<Longrightarrow> found_data e r = r"
  by (cases "search e (names r)") (simp_all add: found_data_def needs_data_def)

lemma unplaced_settled:
  assumes "unplaced d (settled e d K r)"
  shows "unplaced d r"
proof -
  let ?t = "track_data d (master_metadata_track_name r) (master_metadata_album_artist_name r)"
  have n: "master_metadata_track_name (settled e d K r) = master_metadata_track_name r"
    "master_metadata_album_artist_name (settled e d K r) = master_metadata_album_artist_name r"
    using names_settled [of e d K r] by (simp_all add: names_def)
  from assms have t: "?t = []" and nd: "needs_data (searched e K (enrich d r))"
    by (simp_all add: unplaced_def n) (simp add: settled_def)
  have en: "enrich d r = r" using t by (simp add: enrich_def)
  have "needs_data r"
  proof (cases "searched e K r = r")
    case True
    then show ?thesis using nd unfolding en by simp
  next
    case False
    then have "searched e K r = found_data e r" by (simp add: searched_def split: if_splits)
    then show ?thesis using nd needs_data_found_data [of e r] unfolding en by simp
  qed
  then show ?thesis using t by (simp add: unplaced_def)
qed

lemma settled_rerun [simp]: "settled e (rerun F d) = settled e d"
  by (rule ext)+ (simp add: settled_def)

lemma second_table:
  assumes dist: "distinct (map eid R3)"
    and F: "F = map f (filter (\<lambda>x. \<not> is_sentinel x) R3)"
    and f: "\<And>r. eid (f r) = eid r" "\<And>r. is_sentinel (f r) = is_sentinel r"
  shows "distinct (map eid (F @ filter is_sentinel R3))"
    and "filter (\<lambda>x. \<not> is_sentinel x) (F @ filter is_sentinel R3) = F"
    and "eid ` set F = eid ` {x \<in> set R3. \<not> is_sentinel x}"
proof -
  have m: "map eid F = map eid (filter (\<lambda>x. \<not> is_sentinel x) R3)"
    unfolding F using f(1) by (simp add: comp_def)
  have d1: "distinct (map eid F)" unfolding m using dist by (rule distinct_map_filter)
  have d2: "distinct (map eid (filter is_sentinel R3))" using dist by (rule distinct_map_filter)
  have "set (map eid F) \<inter> set (map eid (filter is_sentinel R3)) = {}"
  proof (rule ccontr)
    assume "set (map eid F) \<inter> set (map eid (filter is_sentinel R3)) \<noteq> {}"
    then obtain i where "i \<in> set (map eid (filter (\<lambda>x. \<not> is_sentinel x) R3))"
      and "i \<in> set (map eid (filter is_sentinel R3))"
      unfolding m by blast
    then obtain x y where x: "x \<in> set R3" "\<not> is_sentinel x" "eid x = i"
      and y: "y \<in> set R3" "is_sentinel y" "eid y = i"
      by auto
    have "x = y" using distinct_map_eq [OF dist x(1) y(1)] x(3) y(3) by simp
    then show False using x(2) y(2) by simp
  qed
  then show "distinct (map eid (F @ filter is_sentinel R3))" using d1 d2 by simp
  have "filter (\<lambda>x. \<not> is_sentinel x) F = F" unfolding F using f(2) by (simp add: filter_map comp_def)
  then show "filter (\<lambda>x. \<not> is_sentinel x) (F @ filter is_sentinel R3) = F" by simp
  have "set (map eid F) = set (map eid (filter (\<lambda>x. \<not> is_sentinel x) R3))" using m by simp
  then show "eid ` set F = eid ` {x \<in> set R3. \<not> is_sentinel x}" by simp
qed

lemma second_run:
  assumes pk: "distinct (map eid (endsong d))"
    and dist0: "distinct (map eid (endsong_modified d))"
    and clean: "\<forall>x\<in>set (endsong_modified d). \<not> is_sentinel x"
    and it: "iterates_sets e" and q: "quote_free d"
    and run: "run e d = Inr out"
  shows "distinct (map eid (endsong_modified (store out)))"
    and "\<exists>out'. run e (store out) = Inr out' \<and> store out' = store out"
proof -
  from run obtain d3 rows where res: "resolvers e d = Inr (d3, missing_report out, unsure_report out)"
    and st: "track_data_stage e d3 = Inr (rows, skipped_report out)"
    and so: "store out = d3\<lparr>endsong_modified := delete_unknown (fixup2 (fixup1 rows))\<rparr>"
    by (rule run_split)
  let ?R3 = "endsong_modified d3"
  let ?K1 = "pending d3 ?R3 - {sentinel}"
  define F where "F = delete_unknown (fixup2 (fixup1 rows))"
  have ext: "extends d d3" using pk it q res by (rule resolvers_extends)
  have dist3: "distinct (map eid ?R3)" using ext dist0 by (rule extends_distinct)
  have F: "F = map (settled e d3 ?K1) (filter (\<lambda>x. \<not> is_sentinel x) ?R3)"
    unfolding F_def using dist3 st by (rule export_closed)
  note tab = second_table [OF dist3 F eid_settled is_sentinel_settled]
  have frame: "history d3 = history d" "endsong d3 = endsong d"
    using ext by (simp_all add: extends_def)
  have nos: "filter is_sentinel (endsong_modified d) = []"
    using clean by (simp add: filter_empty_conv)
  then have start: "store out = rerun F d"
    unfolding so F_def [symmetric] using frame by (intro db.equality) simp_all
  have "distinct (map eid F)" using tab(1) by simp
  then show "distinct (map eid (endsong_modified (store out)))" by (simp add: start nos)
  from resolvers_rerun [OF pk it q tab(3) dist3 res]
  obtain m' u' where res2: "resolvers e (rerun F d) = Inr (rerun F d3, m', u')" by blast
  let ?d3 = "rerun F d3"
  let ?T2 = "endsong_modified ?d3"
  let ?K2 = "pending ?d3 ?T2 - {sentinel}"
  have T2: "?T2 = F @ filter is_sentinel ?R3" by simp
  have dist2: "distinct (map eid ?T2)" using tab(1) by simp
  note c1 = track_data_stage_closed [OF dist3 st]
  have s2: "sentinel \<in> pending ?d3 ?T2"
  proof -
    from c1(2) obtain r where r: "r \<in> set ?R3" "unplaced d3 r" "names r = sentinel"
      by (auto simp: pending_def)
    then have "r \<in> set ?T2" by (simp add: is_sentinel_names)
    then show ?thesis using r(2,3) by (force simp: pending_def)
  qed
  have K: "?K2 \<subseteq> ?K1"
  proof
    fix k assume k: "k \<in> ?K2"
    then obtain r' where r': "r' \<in> set ?T2" "unplaced d3 r'" "names r' = k" "k \<noteq> sentinel"
      by (auto simp: pending_def)
    then have "r' \<in> set F" by (auto simp: is_sentinel_names)
    then obtain r where r: "r \<in> set ?R3" "r' = settled e d3 ?K1 r" unfolding F by auto
    have "unplaced d3 r" using r'(2) unfolding r(2) by (rule unplaced_settled)
    moreover have "names r = k" using r'(3) r(2) by simp
    ultimately show "k \<in> ?K1" using r(1) r'(4) by (auto simp: pending_def)
  qed
  have ok2: "\<forall>k\<in>?K2. search e k \<noteq> SearchRaised" using c1(3) K by blast
  from track_data_stage_succeeds [OF dist2 s2 ok2]
  obtain rows2 sk2 where st2: "track_data_stage e ?d3 = Inr (rows2, sk2)" by blast
  have "delete_unknown (fixup2 (fixup1 rows2))
      = map (settled e ?d3 ?K2) (filter (\<lambda>x. \<not> is_sentinel x) ?T2)"
    using dist2 st2 by (rule export_closed)
  also have "\<dots> = map (settled e ?d3 ?K2) F" unfolding T2 tab(2) ..
  also have "\<dots> = F"
  proof (rule map_idI)
    fix r' assume "r' \<in> set F"
    then obtain r where "r' = settled e d3 ?K1 r" unfolding F by auto
    then show "settled e ?d3 ?K2 r' = r'" using settled_idem [OF K] by simp
  qed
  finally have F2: "delete_unknown (fixup2 (fixup1 rows2)) = F" .
  have "run e (rerun F d)
      = Inr \<lparr>store = ?d3\<lparr>endsong_modified := F\<rparr>, missing_report = m', unsure_report = u',
              skipped_report = sk2\<rparr>"
    by (simp add: run_def res2 st2 F2)
  moreover have "?d3\<lparr>endsong_modified := F\<rparr> = store out"
    unfolding so F_def [symmetric] by (simp add: rerun_def)
  ultimately show "\<exists>out'. run e (store out) = Inr out' \<and> store out' = store out"
    unfolding start [symmetric] by simp
qed

section \<open>Idempotence\<close>

text \<open>
  The second run on the example store: the first run left the rows 10, 12, 11 and 14.
  The initial pass makes the row 16 of the unknown pair again, the cluster loop and the
  no-match loop find 12, 11 and 14 reconciled and report 15 missing, and the exporter
  deletes row 16 again.
\<close>

lemma ex2_initial_pass:
  "initial_pass (store_ex\<lparr>endsong_modified := ex_exported\<rparr>)
   = Inr (store_ex\<lparr>endsong_modified := ex_exported @ [ex_resolved ! 1]\<rparr>, [[1, 2]], [14, 15])"
  by (simp add: initial_pass_def initial_step.simps store_ex_defs insert_resolved_def
      set_add_def ex_resolved_def ex_exported_def)

lemma ex2_multiple_pass:
  "multiple_pass (env_ex line) (store_ex\<lparr>endsong_modified := ex_exported @ [ex_resolved ! 1]\<rparr>)
     [[1, 2]]
   = Inr (store_ex\<lparr>endsong_modified := ex_exported @ [ex_resolved ! 1]\<rparr>)"
  by (simp add: multiple_pass_def multiple_step_def cluster_history_def cluster_endsong_def
      ts_like_def replace_all_def sql_lower_def resolve_pair_def env_ex_def
      store_ex_defs insert_resolved_def ex_resolved_def ex_exported_def)

lemma ex2_none_pass:
  "none_pass (env_ex ''1'') (store_ex\<lparr>endsong_modified := ex_exported @ [ex_resolved ! 1]\<rparr>)
     [14, 15]
   = Inr (store_ex\<lparr>endsong_modified := ex_exported @ [ex_resolved ! 1]\<rparr>, [15], [])"
  by (simp add: none_pass_def none_step.simps fallback_ex_defs py_index_def Let_def
      insert_resolved_def set_add_def ex_resolved_def ex_exported_def)

lemma ex2_track_data_stage:
  "track_data_stage (env_ex line) (store_ex\<lparr>endsong_modified := ex_exported @ [ex_resolved ! 1]\<rparr>)
   = Inr (ex_exported @ [ex_resolved ! 1], [])"
  by (simp add: track_ex_defs ex_resolved_def ex_exported_def store_ex_def hist_def broken_def
      intact_def set_names_def)

lemma ex2_run:
  "run (env_ex ''1'') (store_ex\<lparr>endsong_modified := ex_exported\<rparr>)
   = Inr \<lparr>store = store_ex\<lparr>endsong_modified := ex_exported\<rparr>,
          missing_report = [15], unsure_report = [], skipped_report = []\<rparr>"
  by (simp only: run_def resolvers_def ex2_initial_pass ex2_multiple_pass ex2_none_pass
      ex2_track_data_stage sum.case prod.case)
    (simp add: fixup1_def fixup2_def like_https_def not_like_spotify_def sql_lower_def
      sql_like_percent delete_unknown_def is_sentinel_def ex_exported_def ex_resolved_def
      broken_def)



end
